theory Spec2Isabelle
  imports Main "HOL-Library.Word"
begin

unbundle bit_operations_syntax

section \<open>Data model of utf8.h\<close>

text \<open>
  The library is a set of function templates over iterators. An octet iterator is
  modelled as an index into the buffer it points into (\<open>mem\<close>, a list of octets); the
  end bound of a range is an index too, so \<open>it == end\<close> is equality of indices and
  \<open>++it\<close> is \<open>Suc\<close>. Dereferencing an index outside the buffer is undefined behaviour
  in C++: every function that dereferences returns an \<open>option\<close>, and \<open>None\<close> stands
  for such a read. Octets are the unsigned 8-bit values \<open>mask8\<close> produces; the
  two expressions that use \<open>*it\<close> without \<open>mask8\<close> keep only its low six bits, which
  do not depend on the signedness of the element type.
\<close>

type_synonym u8 = "8 word"
type_synonym u16 = "16 word"
type_synonym u32 = "32 word"

definition LEAD_SURROGATE_MIN :: u16 where "LEAD_SURROGATE_MIN = 0xd800"
definition LEAD_SURROGATE_MAX :: u16 where "LEAD_SURROGATE_MAX = 0xdbff"
definition TRAIL_SURROGATE_MIN :: u16 where "TRAIL_SURROGATE_MIN = 0xdc00"
definition TRAIL_SURROGATE_MAX :: u16 where "TRAIL_SURROGATE_MAX = 0xdfff"

definition LEAD_OFFSET :: u16 where
  "LEAD_OFFSET = LEAD_SURROGATE_MIN - ucast (drop_bit 10 (0x10000 :: u32))"

definition SURROGATE_OFFSET :: u32 where
  "SURROGATE_OFFSET =
     0x10000 - push_bit 10 (ucast LEAD_SURROGATE_MIN) - ucast TRAIL_SURROGATE_MIN"

definition CODE_POINT_MAX :: u32 where "CODE_POINT_MAX = 0x0010ffff"

datatype utf_error =
  UTF8_OK | NOT_ENOUGH_ROOM | INVALID_LEAD | INCOMPLETE_SEQUENCE
  | OVERLONG_SEQUENCE | INVALID_CODE_POINT

text \<open>The exception classes of the checked interface, with the value each one carries.\<close>

datatype exception =
  invalid_code_point u32 | invalid_utf8 u8 | invalid_utf16 u16 | not_enough_room

text \<open>
  A function that writes through an output iterator either returns or throws; in both
  cases the octets written so far stay in the output, so both outcomes carry it.
\<close>

datatype 'a written = Returned "'a list" | Thrown exception "'a list"

section \<open>Classifier and sequence-length resolver\<close>

definition mask8 :: "u8 \<Rightarrow> u8" where
  "mask8 oc = 0xff AND oc"

definition mask16 :: "u16 \<Rightarrow> u16" where
  "mask16 oc = 0xffff AND oc"

definition is_trail :: "u8 \<Rightarrow> bool" where
  "is_trail oc = (drop_bit 6 (mask8 oc) = 0x2)"

definition is_lead_surrogate :: "u32 \<Rightarrow> bool" where
  "is_lead_surrogate cp = (cp \<ge> ucast LEAD_SURROGATE_MIN \<and> cp \<le> ucast LEAD_SURROGATE_MAX)"

definition is_trail_surrogate :: "u32 \<Rightarrow> bool" where
  "is_trail_surrogate cp = (cp \<ge> ucast TRAIL_SURROGATE_MIN \<and> cp \<le> ucast TRAIL_SURROGATE_MAX)"

definition is_surrogate :: "u32 \<Rightarrow> bool" where
  "is_surrogate cp = (cp \<ge> ucast LEAD_SURROGATE_MIN \<and> cp \<le> ucast TRAIL_SURROGATE_MAX)"

definition is_code_point_valid :: "u32 \<Rightarrow> bool" where
  "is_code_point_valid cp = (cp \<le> CODE_POINT_MAX \<and> \<not> is_surrogate cp)"

text \<open>\<open>*it\<close>: the octet at an index, \<open>None\<close> outside the buffer.\<close>

definition deref :: "'a list \<Rightarrow> nat \<Rightarrow> 'a option" where
  "deref mem i = (if i < length mem then Some (mem ! i) else None)"

definition sequence_length :: "u8 list \<Rightarrow> nat \<Rightarrow> nat option" where
  "sequence_length mem lead_it =
     (case deref mem lead_it of
        None \<Rightarrow> None
      | Some b \<Rightarrow>
          (let lead = mask8 b in
           if lead < 0x80 then Some 1
           else if drop_bit 5 lead = 0x6 then Some 2
           else if drop_bit 4 lead = 0xe then Some 3
           else if drop_bit 3 lead = 0x1e then Some 4
           else Some 0))"

definition is_overlong_sequence :: "u32 \<Rightarrow> nat \<Rightarrow> bool" where
  "is_overlong_sequence cp len =
     (if cp < 0x80 then len \<noteq> 1
      else if cp < 0x800 then len \<noteq> 2
      else if cp < 0x10000 then len \<noteq> 3
      else False)"

section \<open>Checked decoder\<close>

text \<open>
  \<open>increase_safely\<close> advances the iterator it is given by reference in every case;
  the result is the error code and the advanced iterator.
\<close>

definition increase_safely :: "u8 list \<Rightarrow> nat \<Rightarrow> nat \<Rightarrow> (utf_error \<times> nat) option" where
  "increase_safely mem it end =
     (let it = Suc it in
      if it = end then Some (NOT_ENOUGH_ROOM, it)
      else case deref mem it of
             None \<Rightarrow> None
           | Some b \<Rightarrow> if \<not> is_trail b then Some (INCOMPLETE_SEQUENCE, it)
                       else Some (UTF8_OK, it))"

text \<open>
  The \<open>get_sequence_x\<close> functions take the iterator and the code point by reference;
  they return the error code with the values both have when the function returns.
\<close>

definition get_sequence_1 :: "u8 list \<Rightarrow> nat \<Rightarrow> nat \<Rightarrow> u32 \<Rightarrow> (utf_error \<times> nat \<times> u32) option" where
  "get_sequence_1 mem it end code_point =
     (if it = end then Some (NOT_ENOUGH_ROOM, it, code_point)
      else case deref mem it of
             None \<Rightarrow> None
           | Some b \<Rightarrow> Some (UTF8_OK, it, ucast (mask8 b)))"

definition get_sequence_2 :: "u8 list \<Rightarrow> nat \<Rightarrow> nat \<Rightarrow> u32 \<Rightarrow> (utf_error \<times> nat \<times> u32) option" where
  "get_sequence_2 mem it end code_point =
     (if it = end then Some (NOT_ENOUGH_ROOM, it, code_point)
      else case deref mem it of
        None \<Rightarrow> None
      | Some b0 \<Rightarrow>
         (let code_point = ucast (mask8 b0) in
          case increase_safely mem it end of
            None \<Rightarrow> None
          | Some (ret, it) \<Rightarrow>
             if ret \<noteq> UTF8_OK then Some (ret, it, code_point)
             else (case deref mem it of
               None \<Rightarrow> None
             | Some b1 \<Rightarrow>
                Some (UTF8_OK, it,
                      (push_bit 6 code_point AND 0x7ff) + (ucast b1 AND 0x3f)))))"

definition get_sequence_3 :: "u8 list \<Rightarrow> nat \<Rightarrow> nat \<Rightarrow> u32 \<Rightarrow> (utf_error \<times> nat \<times> u32) option" where
  "get_sequence_3 mem it end code_point =
     (if it = end then Some (NOT_ENOUGH_ROOM, it, code_point)
      else case deref mem it of
        None \<Rightarrow> None
      | Some b0 \<Rightarrow>
         (let code_point = ucast (mask8 b0) in
          case increase_safely mem it end of
            None \<Rightarrow> None
          | Some (ret, it) \<Rightarrow>
             if ret \<noteq> UTF8_OK then Some (ret, it, code_point)
             else (case deref mem it of
               None \<Rightarrow> None
             | Some b1 \<Rightarrow>
                (let code_point = (push_bit 12 code_point AND 0xffff)
                                  + (push_bit 6 (ucast (mask8 b1)) AND 0xfff) in
                 case increase_safely mem it end of
                   None \<Rightarrow> None
                 | Some (ret, it) \<Rightarrow>
                    if ret \<noteq> UTF8_OK then Some (ret, it, code_point)
                    else (case deref mem it of
                      None \<Rightarrow> None
                    | Some b2 \<Rightarrow>
                       Some (UTF8_OK, it, code_point + (ucast b2 AND 0x3f)))))))"

definition get_sequence_4 :: "u8 list \<Rightarrow> nat \<Rightarrow> nat \<Rightarrow> u32 \<Rightarrow> (utf_error \<times> nat \<times> u32) option" where
  "get_sequence_4 mem it end code_point =
     (if it = end then Some (NOT_ENOUGH_ROOM, it, code_point)
      else case deref mem it of
        None \<Rightarrow> None
      | Some b0 \<Rightarrow>
         (let code_point = ucast (mask8 b0) in
          case increase_safely mem it end of
            None \<Rightarrow> None
          | Some (ret, it) \<Rightarrow>
             if ret \<noteq> UTF8_OK then Some (ret, it, code_point)
             else (case deref mem it of
               None \<Rightarrow> None
             | Some b1 \<Rightarrow>
                (let code_point = (push_bit 18 code_point AND 0x1fffff)
                                  + (push_bit 12 (ucast (mask8 b1)) AND 0x3ffff) in
                 case increase_safely mem it end of
                   None \<Rightarrow> None
                 | Some (ret, it) \<Rightarrow>
                    if ret \<noteq> UTF8_OK then Some (ret, it, code_point)
                    else (case deref mem it of
                      None \<Rightarrow> None
                    | Some b2 \<Rightarrow>
                       (let code_point = code_point
                                         + (push_bit 6 (ucast (mask8 b2)) AND 0xfff) in
                        case increase_safely mem it end of
                          None \<Rightarrow> None
                        | Some (ret, it) \<Rightarrow>
                           if ret \<noteq> UTF8_OK then Some (ret, it, code_point)
                           else (case deref mem it of
                             None \<Rightarrow> None
                           | Some b3 \<Rightarrow>
                              Some (UTF8_OK, it, code_point + (ucast b3 AND 0x3f)))))))))"

text \<open>
  The \<open>switch (length)\<close> of \<open>validate_next\<close> for the lengths 1 to 4, on the local
  \<open>cp\<close>; length 0 returns from \<open>validate_next\<close> at once and is handled there.
\<close>

definition get_sequence :: "nat \<Rightarrow> u8 list \<Rightarrow> nat \<Rightarrow> nat \<Rightarrow> u32 \<Rightarrow> (utf_error \<times> nat \<times> u32) option" where
  "get_sequence len mem it end cp =
     (if len = 1 then get_sequence_1 mem it end cp
      else if len = 2 then get_sequence_2 mem it end cp
      else if len = 3 then get_sequence_3 mem it end cp
      else if len = 4 then get_sequence_4 mem it end cp
      else Some (UTF8_OK, it, cp))"

text \<open>
  \<open>validate_next (it, end, code_point)\<close>: the result is the error code, the iterator
  and the output parameter \<open>code_point\<close> as the call leaves them.
\<close>

definition validate_next :: "u8 list \<Rightarrow> nat \<Rightarrow> nat \<Rightarrow> u32 \<Rightarrow> (utf_error \<times> nat \<times> u32) option" where
  "validate_next mem it end code_point =
     (let original_it = it; cp = 0 in
      case sequence_length mem it of
        None \<Rightarrow> None
      | Some len \<Rightarrow>
         if len = 0 then Some (INVALID_LEAD, it, code_point)
         else (case get_sequence len mem it end cp of
           None \<Rightarrow> None
         | Some (err, it, cp) \<Rightarrow>
            if err = UTF8_OK then
              (if is_code_point_valid cp then
                 (if \<not> is_overlong_sequence cp len then Some (UTF8_OK, Suc it, cp)
                  else Some (OVERLONG_SEQUENCE, original_it, code_point))
               else Some (INVALID_CODE_POINT, original_it, code_point))
            else Some (err, original_it, code_point)))"

text \<open>
  The two-argument overload passes an uninitialised local as \<open>code_point\<close> and
  drops it; \<open>validate_next\<close> never reads that parameter, so any value stands for it.
\<close>

definition validate_next2 :: "u8 list \<Rightarrow> nat \<Rightarrow> nat \<Rightarrow> (utf_error \<times> nat) option" where
  "validate_next2 mem it end =
     (case validate_next mem it end 0 of
        None \<Rightarrow> None
      | Some (err, it, ignored) \<Rightarrow> Some (err, it))"

section \<open>Encoder\<close>

definition append :: "u32 \<Rightarrow> u8 list \<Rightarrow> u8 written" where
  "append cp result =
     (if \<not> is_code_point_valid cp then Thrown (invalid_code_point cp) result
      else if cp < 0x80 then Returned (result @ [ucast cp])
      else if cp < 0x800 then
        Returned (result @ [ucast (drop_bit 6 cp OR 0xc0),
                            ucast ((cp AND 0x3f) OR 0x80)])
      else if cp < 0x10000 then
        Returned (result @ [ucast (drop_bit 12 cp OR 0xe0),
                            ucast ((drop_bit 6 cp AND 0x3f) OR 0x80),
                            ucast ((cp AND 0x3f) OR 0x80)])
      else
        Returned (result @ [ucast (drop_bit 18 cp OR 0xf0),
                            ucast ((drop_bit 12 cp AND 0x3f) OR 0x80),
                            ucast ((drop_bit 6 cp AND 0x3f) OR 0x80),
                            ucast ((cp AND 0x3f) OR 0x80)]))"

text \<open>
  \<open>next (it, end)\<close>: the iterator as the call leaves it, with the code point
  returned or the exception thrown.
\<close>

definition "next" :: "u8 list \<Rightarrow> nat \<Rightarrow> nat \<Rightarrow> (nat \<times> (exception + u32)) option" where
  "next mem it end =
     (let cp = 0 in
      case validate_next mem it end cp of
        None \<Rightarrow> None
      | Some (err_code, it, cp) \<Rightarrow>
         (case err_code of
            UTF8_OK \<Rightarrow> Some (it, Inr cp)
          | NOT_ENOUGH_ROOM \<Rightarrow> Some (it, Inl not_enough_room)
          | INVALID_CODE_POINT \<Rightarrow> Some (it, Inl (invalid_code_point cp))
          | _ \<Rightarrow> (case deref mem it of
                    None \<Rightarrow> None
                  | Some b \<Rightarrow> Some (it, Inl (invalid_utf8 b)))))"

section \<open>Facts about the decoder that the loops below rest on\<close>

lemma deref_Some_iff: "deref mem i = Some b \<longleftrightarrow> i < length mem \<and> b = mem ! i"
  by (auto simp: deref_def)

lemma deref_None_iff: "deref mem i = None \<longleftrightarrow> length mem \<le> i"
  by (auto simp: deref_def)

lemma sequence_length_Some:
  "sequence_length mem it = Some n \<Longrightarrow> it < length mem \<and> n \<le> 4"
  by (auto simp: sequence_length_def deref_def Let_def split: if_splits)

lemma increase_safely_it:
  "increase_safely mem it end = Some (e, it') \<Longrightarrow> it' = Suc it"
  by (auto simp: increase_safely_def Let_def split: if_splits option.splits)

lemma increase_safely_OK_iff:
  "increase_safely mem it end = Some (UTF8_OK, it') \<longleftrightarrow>
     it' = Suc it \<and> Suc it \<noteq> end \<and> Suc it < length mem \<and> is_trail (mem ! Suc it)"
  by (auto simp: increase_safely_def Let_def deref_def split: if_splits)

lemma get_sequence_1_OK_iff:
  "get_sequence_1 mem it end c = Some (UTF8_OK, it', cp) \<longleftrightarrow>
     it \<noteq> end \<and> it < length mem \<and> it' = it \<and> cp = ucast (mask8 (mem ! it))"
  by (auto simp: get_sequence_1_def deref_def split: if_splits)

lemma get_sequence_2_OK_iff:
  "get_sequence_2 mem it end c = Some (UTF8_OK, it', cp) \<longleftrightarrow>
     it \<noteq> end \<and> it < length mem \<and> it' = Suc it
     \<and> Suc it \<noteq> end \<and> Suc it < length mem \<and> is_trail (mem ! Suc it)
     \<and> cp = (push_bit 6 (ucast (mask8 (mem ! it))) AND 0x7ff) + (ucast (mem ! Suc it) AND 0x3f)"
  by (auto simp: get_sequence_2_def increase_safely_def Let_def deref_def split: if_splits)

lemma get_sequence_3_OK_iff:
  "get_sequence_3 mem it end c = Some (UTF8_OK, it', cp) \<longleftrightarrow>
     it \<noteq> end \<and> it < length mem \<and> it' = Suc (Suc it)
     \<and> Suc it \<noteq> end \<and> Suc it < length mem \<and> is_trail (mem ! Suc it)
     \<and> Suc (Suc it) \<noteq> end \<and> Suc (Suc it) < length mem \<and> is_trail (mem ! Suc (Suc it))
     \<and> cp = (push_bit 12 (ucast (mask8 (mem ! it))) AND 0xffff)
            + (push_bit 6 (ucast (mask8 (mem ! Suc it))) AND 0xfff)
            + (ucast (mem ! Suc (Suc it)) AND 0x3f)"
  by (auto simp: get_sequence_3_def increase_safely_def Let_def deref_def split: if_splits)

lemma get_sequence_4_OK_iff:
  "get_sequence_4 mem it end c = Some (UTF8_OK, it', cp) \<longleftrightarrow>
     it \<noteq> end \<and> it < length mem \<and> it' = Suc (Suc (Suc it))
     \<and> Suc it \<noteq> end \<and> Suc it < length mem \<and> is_trail (mem ! Suc it)
     \<and> Suc (Suc it) \<noteq> end \<and> Suc (Suc it) < length mem \<and> is_trail (mem ! Suc (Suc it))
     \<and> Suc (Suc (Suc it)) \<noteq> end \<and> Suc (Suc (Suc it)) < length mem
     \<and> is_trail (mem ! Suc (Suc (Suc it)))
     \<and> cp = (push_bit 18 (ucast (mask8 (mem ! it))) AND 0x1fffff)
            + (push_bit 12 (ucast (mask8 (mem ! Suc it))) AND 0x3ffff)
            + (push_bit 6 (ucast (mask8 (mem ! Suc (Suc it)))) AND 0xfff)
            + (ucast (mem ! Suc (Suc (Suc it))) AND 0x3f)"
  by (auto simp: get_sequence_4_def increase_safely_def Let_def deref_def split: if_splits)

lemma get_sequence_OK_it:
  "get_sequence len mem it end c = Some (UTF8_OK, it', cp) \<Longrightarrow> 0 < len \<Longrightarrow> len \<le> 4
     \<Longrightarrow> Suc it' = it + len"
  by (auto simp: get_sequence_def get_sequence_1_OK_iff get_sequence_2_OK_iff
        get_sequence_3_OK_iff get_sequence_4_OK_iff split: if_splits)

lemma validate_next_Some_it:
  "validate_next mem it end c = Some (err, it', c') \<Longrightarrow> it < length mem"
  by (auto simp: validate_next_def Let_def split: option.splits dest: sequence_length_Some)

lemma validate_next_error_it:
  "validate_next mem it end c = Some (err, it', c') \<Longrightarrow> err \<noteq> UTF8_OK \<Longrightarrow> it' = it \<and> c' = c"
  by (auto simp: validate_next_def Let_def split: option.splits if_splits)

lemma validate_next_OK_it:
  "validate_next mem it end c = Some (UTF8_OK, it', c') \<Longrightarrow>
     \<exists>len. sequence_length mem it = Some len \<and> 0 < len \<and> len \<le> 4 \<and> it' = it + len"
proof -
  assume v: "validate_next mem it end c = Some (UTF8_OK, it', c')"
  then obtain len where len: "sequence_length mem it = Some len"
    by (auto simp: validate_next_def Let_def split: option.splits)
  with v have pos: "0 < len"
    by (auto simp: validate_next_def Let_def split: if_splits)
  from len have le: "len \<le> 4" by (simp add: sequence_length_Some)
  from v len pos obtain it0 where g: "get_sequence len mem it end 0 = Some (UTF8_OK, it0, c')"
    and it': "it' = Suc it0"
    by (auto simp: validate_next_def Let_def split: option.splits if_splits)
  from get_sequence_OK_it [OF g pos le] it' have "it' = it + len" by simp
  with len pos le show ?thesis by blast
qed

section \<open>Whole-buffer validation\<close>

text \<open>
  The loops of the library run until two iterators are equal. Each one is a recursive
  function on the index; it terminates because every iteration either dereferences
  outside the buffer (\<open>None\<close>) or moves the index forward inside it.
\<close>

function find_invalid :: "u8 list \<Rightarrow> nat \<Rightarrow> nat \<Rightarrow> nat option" where
  "find_invalid mem result end =
     (if result \<noteq> end then
        (case validate_next2 mem result end of
           None \<Rightarrow> None
         | Some (err_code, result') \<Rightarrow>
             if err_code \<noteq> UTF8_OK then Some result'
             else find_invalid mem result' end)
      else Some result)"
  by pat_completeness auto
termination
proof (relation "measure (\<lambda>(mem, result, end). length mem - result)")
  show "wf (measure (\<lambda>(mem, result, end). length mem - result))" by simp
next
  fix mem :: "u8 list" and result "end" :: nat and x2 :: "utf_error \<times> nat" and x y
  assume "validate_next2 mem result end = Some x2" and "(x, y) = x2" and "\<not> x \<noteq> UTF8_OK"
  then obtain c where "validate_next mem result end 0 = Some (UTF8_OK, y, c)"
    by (auto simp: validate_next2_def split: option.splits)
  from validate_next_OK_it [OF this] validate_next_Some_it [OF this]
  show "((mem, y, end), (mem, result, end)) \<in> measure (\<lambda>(mem, result, end). length mem - result)"
    by auto
qed

declare find_invalid.simps [simp del]

definition is_valid :: "u8 list \<Rightarrow> nat \<Rightarrow> nat \<Rightarrow> bool option" where
  "is_valid mem start end = map_option (\<lambda>r. r = end) (find_invalid mem start end)"

section \<open>Sanitizer\<close>

text \<open>
  The two inner loops of \<open>replace_invalid\<close>: the \<open>for\<close> loop that copies the
  octets of a valid sequence from \<open>sequence_start\<close> up to \<open>start\<close>, and the
  \<open>while\<close> loop that skips trail octets after a replacement.
\<close>

function copy_sequence :: "u8 list \<Rightarrow> nat \<Rightarrow> nat \<Rightarrow> u8 list \<Rightarrow> u8 list option" where
  "copy_sequence mem it start out =
     (if it \<noteq> start then
        (case deref mem it of
           None \<Rightarrow> None
         | Some b \<Rightarrow> copy_sequence mem (Suc it) start (out @ [b]))
      else Some out)"
  by pat_completeness auto
termination
  by (relation "measure (\<lambda>(mem, it, start, out). length mem - it)")
     (auto simp: deref_Some_iff)

declare copy_sequence.simps [simp del]

function skip_trail :: "u8 list \<Rightarrow> nat \<Rightarrow> nat \<Rightarrow> nat option" where
  "skip_trail mem start end =
     (if start \<noteq> end then
        (case deref mem start of
           None \<Rightarrow> None
         | Some b \<Rightarrow> if is_trail b then skip_trail mem (Suc start) end else Some start)
      else Some start)"
  by pat_completeness auto
termination
  by (relation "measure (\<lambda>(mem, start, end). length mem - start)")
     (auto simp: deref_Some_iff)

declare skip_trail.simps [simp del]

lemma skip_trail_ge: "skip_trail mem start end = Some s \<Longrightarrow> start \<le> s"
proof (induction mem start "end" rule: skip_trail.induct)
  case (1 mem start "end")
  show ?case
  proof (cases "start \<noteq> end \<and> start < length mem \<and> is_trail (mem ! start)")
    case True
    with "1.prems" have "skip_trail mem (Suc start) end = Some s"
      by (subst (asm) skip_trail.simps) (simp add: deref_def)
    with "1.IH" [of "mem ! start"] True have "Suc start \<le> s"
      by (simp add: deref_def)
    then show ?thesis by simp
  next
    case False
    with "1.prems" show ?thesis
      by (subst (asm) skip_trail.simps) (auto simp: deref_def split: if_splits)
  qed
qed

lemma validate_next2_progress:
  "validate_next2 mem it end = Some (err, it') \<Longrightarrow>
     it < length mem \<and> (if err = UTF8_OK then it < it' else it' = it)"
  by (auto simp: validate_next2_def split: option.splits
        dest: validate_next_OK_it validate_next_Some_it validate_next_error_it)

text \<open>
  \<open>replace_invalid (start, end, out, replacement)\<close>. The output iterator is the
  end of the octets written so far (a \<open>back_inserter\<close>, as in the test program).
\<close>

function replace_invalid :: "u8 list \<Rightarrow> nat \<Rightarrow> nat \<Rightarrow> u8 list \<Rightarrow> u32 \<Rightarrow> u8 written option" where
  "replace_invalid mem start end out replacement =
     (if start \<noteq> end then
        (let sequence_start = start in
         case validate_next2 mem start end of
           None \<Rightarrow> None
         | Some (err_code, start) \<Rightarrow>
            (case err_code of
               UTF8_OK \<Rightarrow>
                 (case copy_sequence mem sequence_start start out of
                    None \<Rightarrow> None
                  | Some out \<Rightarrow> replace_invalid mem start end out replacement)
             | NOT_ENOUGH_ROOM \<Rightarrow> Some (Thrown not_enough_room out)
             | INVALID_LEAD \<Rightarrow>
                 (case append replacement out of
                    Thrown e out \<Rightarrow> Some (Thrown e out)
                  | Returned out \<Rightarrow> replace_invalid mem (Suc start) end out replacement)
             | _ \<Rightarrow>
                 (case append replacement out of
                    Thrown e out \<Rightarrow> Some (Thrown e out)
                  | Returned out \<Rightarrow>
                     (case skip_trail mem (Suc start) end of
                        None \<Rightarrow> None
                      | Some start \<Rightarrow> replace_invalid mem start end out replacement))))
      else Some (Returned out))"
  by pat_completeness auto
termination
  by (relation "measure (\<lambda>(mem, start, end, out, replacement). length mem - start)")
     (auto dest!: validate_next2_progress skip_trail_ge)


declare replace_invalid.simps [simp del]


text \<open>The three-argument overload, with the replacement marker U+FFFD.\<close>

definition replace_invalid_default :: "u8 list \<Rightarrow> nat \<Rightarrow> nat \<Rightarrow> u8 list \<Rightarrow> u8 written option" where
  "replace_invalid_default mem start end out =
     (let replacement_marker = ucast (mask16 0xfffd) in
      replace_invalid mem start end out replacement_marker)"

subsection \<open>A run of the sanitizer as a list of decode attempts\<close>

text \<open>
  The documented behaviour of the sanitizer, written down apart from its loop so that
  \<open>replace_invalid\<close> can be compared with it. A run is a list of decode attempts.
  \<open>Copied q\<close> is an attempt that decoded a well-formed unit, whose octets end before
  \<open>q\<close>. \<open>Replaced q\<close> is an attempt that failed with an error for which a replacement
  is written, after which the run goes on at \<open>q\<close>: the next octet after
  \<open>INVALID_LEAD\<close>; after \<open>INCOMPLETE_SEQUENCE\<close>, \<open>OVERLONG_SEQUENCE\<close> and
  \<open>INVALID_CODE_POINT\<close> the first octet behind the failing one that does not test as a
  continuation octet, or the end bound (\<open>skipped\<close>). \<open>scan mem end a xs b\<close> says that
  \<open>xs\<close> are the attempts made from \<open>a\<close> up to \<open>b\<close>; no attempt is made at the end
  bound, and none is recorded for \<open>NOT_ENOUGH_ROOM\<close>. \<open>written_by\<close> is what the
  attempts write: the octets of each well-formed unit, and the octets \<open>mark\<close> of one
  replacement for each failed attempt.
\<close>

datatype attempt = Copied nat | Replaced nat

definition skipped :: "u8 list \<Rightarrow> nat \<Rightarrow> nat \<Rightarrow> nat \<Rightarrow> bool" where
  "skipped mem end a q \<longleftrightarrow>
     a \<le> q \<and> q \<le> end \<and> list_all (\<lambda>i. is_trail (mem ! i)) [a ..< q]
     \<and> (q = end \<or> \<not> is_trail (mem ! q))"

fun scan :: "u8 list \<Rightarrow> nat \<Rightarrow> nat \<Rightarrow> attempt list \<Rightarrow> nat \<Rightarrow> bool" where
  "scan mem end a [] b \<longleftrightarrow> a = b"
| "scan mem end a (Copied q # xs) b \<longleftrightarrow>
     a \<noteq> end \<and> validate_next2 mem a end = Some (UTF8_OK, q) \<and> scan mem end q xs b"
| "scan mem end a (Replaced q # xs) b \<longleftrightarrow>
     a \<noteq> end
     \<and> (case validate_next2 mem a end of
          Some (INVALID_LEAD, _) \<Rightarrow> q = Suc a
        | Some (INCOMPLETE_SEQUENCE, _) \<Rightarrow> skipped mem end (Suc a) q
        | Some (OVERLONG_SEQUENCE, _) \<Rightarrow> skipped mem end (Suc a) q
        | Some (INVALID_CODE_POINT, _) \<Rightarrow> skipped mem end (Suc a) q
        | _ \<Rightarrow> False)
     \<and> scan mem end q xs b"

fun written_by :: "u8 list \<Rightarrow> u8 list \<Rightarrow> nat \<Rightarrow> attempt list \<Rightarrow> u8 list" where
  "written_by mem mark a [] = []"
| "written_by mem mark a (Copied q # xs) = take (q - a) (drop a mem) @ written_by mem mark q xs"
| "written_by mem mark a (Replaced q # xs) = mark @ written_by mem mark q xs"

section \<open>UTF-16 conversions\<close>

lemma next_Inr_iff:
  "next mem it end = Some (it', Inr cp) \<longleftrightarrow>
     validate_next mem it end 0 = Some (UTF8_OK, it', cp)"
  by (auto simp: next_def Let_def split: option.splits utf_error.splits)

lemma next_progress:
  "next mem it end = Some (it', Inr cp) \<Longrightarrow> it < length mem \<and> it < it'"
  unfolding next_Inr_iff
  by (auto dest: validate_next_OK_it validate_next_Some_it)

text \<open>
  \<open>utf16to8\<close> reads 16-bit units from a buffer of its own and appends octets;
  \<open>utf8to16\<close> decodes with \<open>next\<close> and appends 16-bit units.
\<close>

function utf16to8 :: "u16 list \<Rightarrow> nat \<Rightarrow> nat \<Rightarrow> u8 list \<Rightarrow> u8 written option" where
  "utf16to8 mem start end result =
     (if start \<noteq> end then
        (case deref mem start of
           None \<Rightarrow> None
         | Some u \<Rightarrow>
            (let cp = (ucast (mask16 u) :: u32); start = Suc start in
             if is_lead_surrogate cp then
               (if start \<noteq> end then
                  (case deref mem start of
                     None \<Rightarrow> None
                   | Some u' \<Rightarrow>
                      (let trail_surrogate = (ucast (mask16 u') :: u32); start = Suc start in
                       if is_trail_surrogate trail_surrogate then
                         (let cp = push_bit 10 cp + trail_surrogate + SURROGATE_OFFSET in
                          case append cp result of
                            Thrown e result \<Rightarrow> Some (Thrown e result)
                          | Returned result \<Rightarrow> utf16to8 mem start end result)
                       else Some (Thrown (invalid_utf16 (ucast trail_surrogate)) result)))
                else Some (Thrown (invalid_utf16 (ucast cp)) result))
             else if is_trail_surrogate cp then Some (Thrown (invalid_utf16 (ucast cp)) result)
             else (case append cp result of
                     Thrown e result \<Rightarrow> Some (Thrown e result)
                   | Returned result \<Rightarrow> utf16to8 mem start end result)))
      else Some (Returned result))"
  by pat_completeness auto
termination
  by (relation "measure (\<lambda>(mem, start, end, result). length mem - start)")
     (auto simp: deref_Some_iff)

declare utf16to8.simps [simp del]

function utf8to16 :: "u8 list \<Rightarrow> nat \<Rightarrow> nat \<Rightarrow> u16 list \<Rightarrow> u16 written option" where
  "utf8to16 mem start end result =
     (if start \<noteq> end then
        (case next mem start end of
           None \<Rightarrow> None
         | Some (start, Inl e) \<Rightarrow> Some (Thrown e result)
         | Some (start, Inr cp) \<Rightarrow>
            if cp > 0xffff then
              utf8to16 mem start end
                (result @ [ucast (drop_bit 10 cp + ucast LEAD_OFFSET),
                           ucast ((cp AND 0x3ff) + ucast TRAIL_SURROGATE_MIN)])
            else utf8to16 mem start end (result @ [ucast cp]))
      else Some (Returned result))"
  by pat_completeness auto
termination
  by (relation "measure (\<lambda>(mem, start, end, result). length mem - start)")
     (auto dest!: next_progress)

declare utf8to16.simps [simp del]

text \<open>
  The units that one iteration of the loop of \<open>utf8to16\<close> appends for the code point
  it decoded.
\<close>

definition utf16_units :: "u32 \<Rightarrow> u16 list" where
  "utf16_units cp =
     (if cp > 0xffff
      then [ucast (drop_bit 10 cp + ucast LEAD_OFFSET),
            ucast ((cp AND 0x3ff) + ucast TRAIL_SURROGATE_MIN)]
      else [ucast cp])"

section \<open>Evaluation and totality of the decoder\<close>

text \<open>The definitions a concrete decoding unfolds.\<close>

lemmas decoder_defs =
  validate_next_def get_sequence_def get_sequence_1_def get_sequence_2_def get_sequence_3_def
  get_sequence_4_def increase_safely_def sequence_length_def deref_def mask8_def is_trail_def
  is_code_point_valid_def is_surrogate_def is_overlong_sequence_def CODE_POINT_MAX_def
  LEAD_SURROGATE_MIN_def TRAIL_SURROGATE_MAX_def Let_def

text \<open>
  On a non-empty range inside the buffer the decoder reads only octets of the buffer:
  it always returns an error code.
\<close>

lemma increase_safely_cases:
  assumes "i < end" "end \<le> length mem"
  shows "increase_safely mem i end =
           Some (if Suc i = end then NOT_ENOUGH_ROOM
                 else if is_trail (mem ! Suc i) then UTF8_OK else INCOMPLETE_SEQUENCE, Suc i)"
  using assms by (auto simp: increase_safely_def Let_def deref_def)

lemma get_sequence_1_defined:
  "it < end \<Longrightarrow> end \<le> length mem \<Longrightarrow> \<exists>r. get_sequence_1 mem it end c = Some r"
  by (simp add: get_sequence_1_def deref_def)

lemma get_sequence_2_defined:
  "it < end \<Longrightarrow> end \<le> length mem \<Longrightarrow> \<exists>r. get_sequence_2 mem it end c = Some r"
  by (auto simp: get_sequence_2_def increase_safely_cases deref_def Let_def)

lemma get_sequence_3_defined:
  "it < end \<Longrightarrow> end \<le> length mem \<Longrightarrow> \<exists>r. get_sequence_3 mem it end c = Some r"
  by (auto simp: get_sequence_3_def increase_safely_cases deref_def Let_def)

lemma get_sequence_4_defined:
  "it < end \<Longrightarrow> end \<le> length mem \<Longrightarrow> \<exists>r. get_sequence_4 mem it end c = Some r"
  by (auto simp: get_sequence_4_def increase_safely_cases deref_def Let_def)

lemma validate_next_defined:
  assumes "it < end" "end \<le> length mem"
  shows "\<exists>err it' c'. validate_next mem it end c = Some (err, it', c')"
proof -
  from assms have "\<exists>len. sequence_length mem it = Some len"
    by (simp add: sequence_length_def deref_def Let_def)
  then obtain len where len: "sequence_length mem it = Some len" ..
  have "\<exists>r. get_sequence len mem it end 0 = Some r"
    using get_sequence_1_defined [OF assms] get_sequence_2_defined [OF assms]
      get_sequence_3_defined [OF assms] get_sequence_4_defined [OF assms]
    by (simp add: get_sequence_def)
  then obtain e i c0 where "get_sequence len mem it end 0 = Some (e, i, c0)"
    by (metis prod_cases3)
  with len show ?thesis
    by (simp add: validate_next_def Let_def)
qed

text \<open>
  \<open>validate_next\<close> never reads its output parameter, and \<open>next\<close> is determined by
  the result of \<open>validate_next\<close> on its local \<open>cp = 0\<close>.
\<close>

lemma validate_next_code_point_param:
  "validate_next mem it end c = Some (err, it', c') \<Longrightarrow>
     validate_next mem it end d = Some (err, it', if err = UTF8_OK then c' else d)"
  by (auto simp: validate_next_def Let_def split: option.splits if_splits)

lemma next_of_validate_next:
  assumes "validate_next mem it end 0 = Some (err, it', c')"
  shows "next mem it end =
           Some (it', case err of
                        UTF8_OK \<Rightarrow> Inr c'
                      | NOT_ENOUGH_ROOM \<Rightarrow> Inl not_enough_room
                      | INVALID_CODE_POINT \<Rightarrow> Inl (invalid_code_point c')
                      | _ \<Rightarrow> Inl (invalid_utf8 (mem ! it')))"
proof (cases "err = UTF8_OK")
  case True
  with assms show ?thesis by (simp add: next_def)
next
  case False
  with assms have "it' = it" and "it < length mem"
    by (auto dest: validate_next_error_it validate_next_Some_it)
  with assms show ?thesis
    by (cases err) (simp_all add: next_def deref_def)
qed

section \<open>The encoder rejects invalid code points\<close>

text \<open>
  Claim C2. For every \<open>cp\<close> that is a surrogate value (0xD800 to 0xDFFF) or exceeds
  0x10FFFF, the checked \<open>append (cp, out)\<close> throws \<open>invalid_code_point\<close> carrying
  \<open>cp\<close>, and the output holds exactly the octets it held before the call: nothing is
  written before the failure.
\<close>

theorem append_rejects_invalid:
  "(0xD800 \<le> cp \<and> cp \<le> 0xDFFF) \<or> 0x10FFFF < cp
     \<Longrightarrow> append cp out = Thrown (invalid_code_point cp) out"
  by (auto simp: append_def is_code_point_valid_def is_surrogate_def CODE_POINT_MAX_def
        LEAD_SURROGATE_MIN_def TRAIL_SURROGATE_MAX_def)

theorem append_rejects_invalid_witness:
  "((0xD800 \<le> (0xD800 :: u32) \<and> (0xD800 :: u32) \<le> 0xDFFF) \<or> 0x10FFFF < (0xD800 :: u32))
   \<and> append 0xD800 [0x41] = Thrown (invalid_code_point 0xD800) [0x41]
   \<and> append 0x110000 [0x41] = Thrown (invalid_code_point 0x110000) [0x41]"
  using append_rejects_invalid [of "0xD800" "[0x41]"]
        append_rejects_invalid [of "0x110000" "[0x41]"]
  by simp

section \<open>The position after a checked decode\<close>

text \<open>
  Claim C3. Whenever \<open>validate_next\<close> returns an error code other than \<open>UTF8_OK\<close>
  (whichever of the five it is), the iterator after the call equals the iterator before
  it; when it returns \<open>UTF8_OK\<close> the iterator has advanced by the sequence length the
  lead octet declares. \<open>next\<close> leaves the iterator exactly where \<open>validate_next\<close>
  leaves it, and throws precisely when the error code is not \<open>UTF8_OK\<close>.
\<close>

theorem validate_next_position:
  "validate_next mem it end c = Some (err, it', c') \<Longrightarrow>
     (if err = UTF8_OK
      then \<exists>len. sequence_length mem it = Some len \<and> 0 < len \<and> it' = it + len
      else it' = it)
     \<and> (\<exists>r. next mem it end = Some (it', r) \<and> (err \<noteq> UTF8_OK) = isl r)"
proof -
  assume v: "validate_next mem it end c = Some (err, it', c')"
  have pos: "if err = UTF8_OK
      then \<exists>len. sequence_length mem it = Some len \<and> 0 < len \<and> it' = it + len
      else it' = it"
  proof (cases "err = UTF8_OK")
    case True
    with v validate_next_OK_it [of mem it "end" c it' c'] show ?thesis by auto
  next
    case False
    with v validate_next_error_it [of mem it "end" c err it' c'] show ?thesis by simp
  qed
  from validate_next_code_point_param [OF v, of 0]
  have "validate_next mem it end 0 = Some (err, it', if err = UTF8_OK then c' else 0)" .
  from next_of_validate_next [OF this]
  have "\<exists>r. next mem it end = Some (it', r) \<and> (err \<noteq> UTF8_OK) = isl r"
    by (cases err) simp_all
  with pos show ?thesis by blast
qed

theorem validate_next_position_witness:
  "validate_next [0xC0, 0x80] 0 2 7 = Some (OVERLONG_SEQUENCE, 0, 7)
   \<and> (\<exists>r. next [0xC0, 0x80] 0 2 = Some (0, r) \<and> isl r)
   \<and> validate_next [0xC3, 0xA9] 0 2 7 = Some (UTF8_OK, 2, 0xE9)
   \<and> (\<exists>len. sequence_length [0xC3, 0xA9] 0 = Some len \<and> 0 < len \<and> 2 = 0 + len)"
proof -
  have h1: "validate_next [0xC0, 0x80] 0 2 7 = Some (OVERLONG_SEQUENCE, 0, 7)"
    by (simp add: decoder_defs)
  have h2: "validate_next [0xC3, 0xA9] 0 2 7 = Some (UTF8_OK, 2, 0xE9)"
    by (simp add: decoder_defs)
  from validate_next_position [OF h1] validate_next_position [OF h2] h1 h2
  show ?thesis by simp
qed


section \<open>The output parameter of the decoder\<close>

text \<open>
  Claim C10. \<open>validate_next\<close> writes its \<open>code_point\<close> output parameter only when
  it returns \<open>UTF8_OK\<close>: on every failure the parameter keeps the value it had before
  the call. Hence, when the failure is \<open>INVALID_CODE_POINT\<close>, the exception
  \<open>invalid_code_point\<close> that \<open>next\<close> throws carries 0, the initial value of the local
  variable of \<open>next\<close>, not the decoded value that was rejected.
\<close>

theorem validate_next_code_point_frame:
  "validate_next mem it end c = Some (err, it', c') \<Longrightarrow> err \<noteq> UTF8_OK \<Longrightarrow>
     c' = c \<and>
     (err = INVALID_CODE_POINT \<longrightarrow> next mem it end = Some (it, Inl (invalid_code_point 0)))"
proof -
  assume v: "validate_next mem it end c = Some (err, it', c')" and e: "err \<noteq> UTF8_OK"
  from validate_next_error_it [OF v e] have eq: "it' = it" "c' = c" by simp_all
  from validate_next_code_point_param [OF v, of 0] e eq
  have "validate_next mem it end 0 = Some (err, it, 0)" by simp
  from next_of_validate_next [OF this]
  have "err = INVALID_CODE_POINT \<longrightarrow> next mem it end = Some (it, Inl (invalid_code_point 0))"
    by simp
  with eq show ?thesis by simp
qed

theorem validate_next_code_point_frame_witness:
  "validate_next [0xED, 0xA0, 0x80] 0 3 7 = Some (INVALID_CODE_POINT, 0, 7)
   \<and> INVALID_CODE_POINT \<noteq> UTF8_OK
   \<and> next [0xED, 0xA0, 0x80] 0 3 = Some (0, Inl (invalid_code_point 0))"
proof -
  have h: "validate_next [0xED, 0xA0, 0x80] 0 3 7 = Some (INVALID_CODE_POINT, 0, 7)"
    by (simp add: decoder_defs)
  from validate_next_code_point_frame [OF h] h show ?thesis by simp
qed

section \<open>The decoder on an empty range\<close>

text \<open>
  On a non-empty range inside the buffer the result depends on the octets of the range
  only: the octet at the end bound is read on an empty range and in no other case.
\<close>

lemma validate_next_reads_in_range:
  assumes rng: "it < end" "end \<le> length mem" "end \<le> length mem'"
    and eq: "\<And>i. it \<le> i \<Longrightarrow> i < end \<Longrightarrow> mem' ! i = mem ! i"
  shows "validate_next mem' it end c = validate_next mem it end c"
proof -
  have d: "deref mem' i = deref mem i" if "it \<le> i" "i < end" for i
    using that eq [of i] rng by (simp add: deref_def)
  have sl: "sequence_length mem' it = sequence_length mem it"
    using d [of it] rng by (simp add: sequence_length_def)
  have inc: "increase_safely m i end =
           Some (if Suc i = end then NOT_ENOUGH_ROOM
                 else if is_trail (m ! Suc i) then UTF8_OK else INCOMPLETE_SEQUENCE, Suc i)"
    if "i < end" "end \<le> length m" for i m
    using that by (rule increase_safely_cases)
  note inc' = inc [OF _ rng(2)] inc [OF _ rng(3)]
  have n: "deref mem i = Some (mem ! i)" "deref mem' i = Some (mem ! i)"
    if "it \<le> i" "i < end" for i
    using that eq [of i] rng by (simp_all add: deref_def)
  have g1: "get_sequence_1 mem' it end c0 = get_sequence_1 mem it end c0" for c0
    using rng by (simp add: get_sequence_1_def d)
  have g2: "get_sequence_2 mem' it end c0 = get_sequence_2 mem it end c0" for c0
    using rng eq [of "Suc it"]
    by (simp add: get_sequence_2_def n inc' Let_def)
  have g3: "get_sequence_3 mem' it end c0 = get_sequence_3 mem it end c0" for c0
    using rng eq [of "Suc it"] eq [of "Suc (Suc it)"]
    by (simp add: get_sequence_3_def n inc' Let_def)
  have g4: "get_sequence_4 mem' it end c0 = get_sequence_4 mem it end c0" for c0
    using rng eq [of "Suc it"] eq [of "Suc (Suc it)"] eq [of "Suc (Suc (Suc it))"]
    by (simp add: get_sequence_4_def n inc' Let_def)
  have g: "get_sequence len mem' it end c0 = get_sequence len mem it end c0" for len c0
    by (simp add: get_sequence_def g1 g2 g3 g4)
  show ?thesis
    by (simp add: validate_next_def sl g cong: option.case_cong if_cong)
qed

text \<open>
  Claim C8 says that every octet read by the checked decoder lies in the range from the
  position up to the end bound, and that on an empty range (position equal to the end
  bound) no octet is read and the call fails with \<open>NOT_ENOUGH_ROOM\<close>. The code calls
  \<open>sequence_length (it)\<close>, which dereferences the iterator, before the
  \<open>it == end\<close> test of the \<open>get_sequence_x\<close> functions. On an empty range the
  outcome therefore depends on the octet stored at the end bound: \<open>INVALID_LEAD\<close> when
  that octet is 0xFF, \<open>NOT_ENOUGH_ROOM\<close> when it is 0x41, and a read outside the buffer
  when the end bound is the end of the buffer.
\<close>

theorem validate_next_reads_lead_at_end:
  "validate_next [0xFF] 0 0 c = Some (INVALID_LEAD, 0, c)
   \<and> validate_next [0x41] 0 0 c = Some (NOT_ENOUGH_ROOM, 0, c)
   \<and> validate_next [] 0 0 c = None
   \<and> next [0xFF] 0 0 = Some (0, Inl (invalid_utf8 0xFF))
   \<and> next [] 0 0 = None"
  by (simp add: decoder_defs next_def)

section \<open>Overlong sequences\<close>

text \<open>
  Claim C5. The checked decode of the two octets C0 80 fails with
  \<open>OVERLONG_SEQUENCE\<close> (it does not succeed as U+0000). In general, whenever the
  octets of a sequence pass the lead and continuation tests, so that a code point
  \<open>cp\<close> is assembled, and the declared length exceeds the minimal length for \<open>cp\<close>
  (1 below 0x80, 2 below 0x800, 3 below 0x10000, 4 otherwise), the decode is rejected;
  the overlong check comes after the validity check, so the error code is
  \<open>OVERLONG_SEQUENCE\<close> when \<open>cp\<close> is a valid code point and
  \<open>INVALID_CODE_POINT\<close> when it is not.
\<close>

theorem overlong_rejected:
  "validate_next [0xC0, 0x80] 0 2 c = Some (OVERLONG_SEQUENCE, 0, c) \<and>
   (sequence_length mem it = Some len
    \<and> get_sequence len mem it end 0 = Some (UTF8_OK, it0, cp)
    \<and> (if cp < 0x80 then 1 else if cp < 0x800 then 2 else if cp < 0x10000 then 3 else 4) < len
    \<longrightarrow> validate_next mem it end c =
          Some (if is_code_point_valid cp then OVERLONG_SEQUENCE else INVALID_CODE_POINT, it, c))"
proof -
  have ex: "validate_next [0xC0, 0x80] 0 2 c = Some (OVERLONG_SEQUENCE, 0, c)"
    by (simp add: decoder_defs)
  have gen: "validate_next mem it end c =
      Some (if is_code_point_valid cp then OVERLONG_SEQUENCE else INVALID_CODE_POINT, it, c)"
    if len: "sequence_length mem it = Some len"
      and g: "get_sequence len mem it end 0 = Some (UTF8_OK, it0, cp)"
      and m: "(if cp < 0x80 then 1 else if cp < 0x800 then 2 else if cp < 0x10000 then 3 else 4) < len"
  proof -
    from len have "len \<le> 4" by (simp add: sequence_length_Some)
    with m have "is_overlong_sequence cp len" and "0 < len"
      by (auto simp: is_overlong_sequence_def split: if_splits)
    with len g show ?thesis
      by (simp add: validate_next_def Let_def)
  qed
  from ex gen show ?thesis by blast
qed

theorem overlong_rejected_witness:
  "sequence_length [0xE0, 0x80, 0xAF] 0 = Some 3
   \<and> get_sequence 3 [0xE0, 0x80, 0xAF] 0 3 0 = Some (UTF8_OK, 2, 0x2F)
   \<and> (if (0x2F :: u32) < 0x80 then 1 else if (0x2F :: u32) < 0x800 then 2
       else if (0x2F :: u32) < 0x10000 then 3 else 4) < (3 :: nat)
   \<and> validate_next [0xE0, 0x80, 0xAF] 0 3 7 = Some (OVERLONG_SEQUENCE, 0, 7)"
proof -
  have h: "sequence_length [0xE0, 0x80, 0xAF] 0 = Some 3
    \<and> get_sequence 3 [0xE0, 0x80, 0xAF] 0 3 0 = Some (UTF8_OK, 2, 0x2F)
    \<and> (if (0x2F :: u32) < 0x80 then 1 else if (0x2F :: u32) < 0x800 then 2
       else if (0x2F :: u32) < 0x10000 then 3 else 4) < (3 :: nat)"
    by (simp add: decoder_defs)
  have v: "is_code_point_valid 0x2F" by (simp add: decoder_defs)
  from overlong_rejected [of 7 "[0xE0, 0x80, 0xAF]" 0 3 3 2 "0x2F"] h v
  show ?thesis by simp
qed


section \<open>Truncated sequences\<close>

text \<open>
  Claim C6 as stated: whenever the lead octet declares a length L and fewer than L
  octets remain before the end bound, the checked decode fails with
  \<open>NOT_ENOUGH_ROOM\<close>. The octets E2 41 refute it: E2 declares three octets, two
  remain, and the decode fails with \<open>INCOMPLETE_SEQUENCE\<close>, because the continuation
  test on 41 is made before the end of the range is reached.
\<close>

theorem truncated_counterexample:
  "sequence_length [0xE2, 0x41] 0 = Some 3 \<and> (2 :: nat) - 0 < 3
   \<and> validate_next [0xE2, 0x41] 0 2 0 = Some (INCOMPLETE_SEQUENCE, 0, 0)
   \<and> validate_next [0xE2, 0x41] 0 2 0 \<noteq> Some (NOT_ENOUGH_ROOM, 0, 0)"
  by (simp add: decoder_defs)

text \<open>
  Claim C6, amended. When the lead octet declares a length L between 1 and 4 and fewer
  than L octets remain before the end bound, the checked decode fails and leaves the
  position unchanged: with \<open>NOT_ENOUGH_ROOM\<close> when every octet between the lead octet
  and the end bound is a continuation octet (in particular for the single octet E2 at
  the end of the buffer), and with \<open>INCOMPLETE_SEQUENCE\<close> otherwise.
\<close>

theorem truncated_sequence:
  assumes L: "sequence_length mem it = Some L" and pos: "0 < L"
    and rng: "it < end" "end \<le> length mem" and short: "end - it < L"
  shows "validate_next mem it end c =
           Some (if \<forall>i \<in> {Suc it ..< end}. is_trail (mem ! i)
                 then NOT_ENOUGH_ROOM else INCOMPLETE_SEQUENCE, it, c)"
proof -
  from L have L4: "L \<le> 4" by (simp add: sequence_length_Some)
  have s1: "{Suc it ..< Suc (Suc it)} = {Suc it}"
    and s2: "{Suc it ..< Suc (Suc (Suc it))} = {Suc it, Suc (Suc it)}"
    by auto
  from rng short L4 consider
      (k1) "end = Suc it" "L = 2 \<or> L = 3 \<or> L = 4"
    | (k2) "end = Suc (Suc it)" "L = 3 \<or> L = 4"
    | (k3) "end = Suc (Suc (Suc it))" "L = 4"
    by arith
  then show ?thesis
  proof cases
    case k1
    with L rng show ?thesis
      by (auto simp: validate_next_def get_sequence_def get_sequence_2_def get_sequence_3_def
            get_sequence_4_def increase_safely_def deref_def Let_def)
  next
    case k2
    with L rng show ?thesis
      by (auto simp: validate_next_def get_sequence_def get_sequence_3_def
            get_sequence_4_def increase_safely_def deref_def Let_def s1)
  next
    case k3
    with L rng show ?thesis
      by (auto simp: validate_next_def get_sequence_def
            get_sequence_4_def increase_safely_def deref_def Let_def s2)
  qed
qed

theorem truncated_sequence_witness:
  "sequence_length [0xE2] 0 = Some 3 \<and> (0 :: nat) < 3 \<and> (0 :: nat) < 1
   \<and> (1 :: nat) \<le> length [0xE2 :: u8] \<and> (1 :: nat) - 0 < 3
   \<and> validate_next [0xE2] 0 1 7 = Some (NOT_ENOUGH_ROOM, 0, 7)
   \<and> sequence_length [0xF0, 0x9F, 0x41] 0 = Some 4
   \<and> validate_next [0xF0, 0x9F, 0x41] 0 3 7 = Some (INCOMPLETE_SEQUENCE, 0, 7)
   \<and> validate_next [0xF0, 0x9F, 0x98] 0 3 7 = Some (NOT_ENOUGH_ROOM, 0, 7)"
proof -
  have h1: "sequence_length [0xE2] 0 = Some 3"
    and h2: "sequence_length [0xF0, 0x9F, 0x41] 0 = Some 4"
    and h3: "sequence_length [0xF0, 0x9F, 0x98] 0 = Some 4"
    by (simp_all add: decoder_defs)
  have s: "{Suc 0 ..< 3} = {1, 2}" by auto
  from truncated_sequence [OF h1, of 1 7] truncated_sequence [OF h2, of 3 7]
    truncated_sequence [OF h3, of 3 7] h1 h2
  show ?thesis by (simp add: s is_trail_def mask8_def)
qed

section \<open>Bit-level facts\<close>

text \<open>
  The constants of the library as bit patterns. A numeral of a word type has the bits
  of the same numeral read as an integer, so the patterns are stated on \<open>int\<close>.
\<close>

lemma bit_mask_const:
  assumes "w = (mask k :: int)"
  shows "bit w n \<longleftrightarrow> n < k"
  unfolding assms by (simp add: bit_mask_iff)

lemma bit_shifted_mask_const:
  assumes "w = (push_bit j (mask k) :: int)"
  shows "bit w n \<longleftrightarrow> j \<le> n \<and> n < j + k"
  unfolding assms by (auto simp add: bit_push_bit_iff bit_mask_iff)

lemma bit_0x3f: "bit (0x3f::int) n \<longleftrightarrow> n < 6"
  using bit_mask_const [of "0x3f" 6 n] by (simp add: mask_eq_exp_minus_1)

lemma bit_0x7ff: "bit (0x7ff::int) n \<longleftrightarrow> n < 11"
  using bit_mask_const [of "0x7ff" 11 n] by (simp add: mask_eq_exp_minus_1)

lemma bit_0xff: "bit (0xff::int) n \<longleftrightarrow> n < 8"
  using bit_mask_const [of "0xff" 8 n] by (simp add: mask_eq_exp_minus_1)

lemma bit_0xfff: "bit (0xfff::int) n \<longleftrightarrow> n < 12"
  using bit_mask_const [of "0xfff" 12 n] by (simp add: mask_eq_exp_minus_1)

lemma bit_0xffff: "bit (0xffff::int) n \<longleftrightarrow> n < 16"
  using bit_mask_const [of "0xffff" 16 n] by (simp add: mask_eq_exp_minus_1)

lemma bit_0x3ffff: "bit (0x3ffff::int) n \<longleftrightarrow> n < 18"
  using bit_mask_const [of "0x3ffff" 18 n] by (simp add: mask_eq_exp_minus_1)

lemma bit_0x1fffff: "bit (0x1fffff::int) n \<longleftrightarrow> n < 21"
  using bit_mask_const [of "0x1fffff" 21 n] by (simp add: mask_eq_exp_minus_1)

lemma bit_0x3ff: "bit (0x3ff::int) n \<longleftrightarrow> n < 10"
  using bit_mask_const [of "0x3ff" 10 n] by (simp add: mask_eq_exp_minus_1)

lemma bit_0x80: "bit (0x80::int) n \<longleftrightarrow> n = 7"
  using bit_shifted_mask_const [of "0x80" 7 1 n] by (simp add: mask_eq_exp_minus_1) arith

lemma bit_0xc0: "bit (0xc0::int) n \<longleftrightarrow> n = 6 \<or> n = 7"
  using bit_shifted_mask_const [of "0xc0" 6 2 n] by (simp add: mask_eq_exp_minus_1) arith

lemma bit_0xe0: "bit (0xe0::int) n \<longleftrightarrow> n = 5 \<or> n = 6 \<or> n = 7"
  using bit_shifted_mask_const [of "0xe0" 5 3 n] by (simp add: mask_eq_exp_minus_1) arith

lemma bit_0xf0: "bit (0xf0::int) n \<longleftrightarrow> n = 4 \<or> n = 5 \<or> n = 6 \<or> n = 7"
  using bit_shifted_mask_const [of "0xf0" 4 4 n] by (simp add: mask_eq_exp_minus_1) arith

lemma bit_2: "bit (2::int) n \<longleftrightarrow> n = 1"
  using bit_shifted_mask_const [of "2" 1 1 n] by (simp add: mask_eq_exp_minus_1) arith

lemma bit_6: "bit (6::int) n \<longleftrightarrow> n = 1 \<or> n = 2"
  using bit_shifted_mask_const [of "6" 1 2 n] by (simp add: mask_eq_exp_minus_1) arith

lemma bit_0xe: "bit (0xe::int) n \<longleftrightarrow> n = 1 \<or> n = 2 \<or> n = 3"
  using bit_shifted_mask_const [of "0xe" 1 3 n] by (simp add: mask_eq_exp_minus_1) arith

lemma bit_0x1e: "bit (0x1e::int) n \<longleftrightarrow> n = 1 \<or> n = 2 \<or> n = 3 \<or> n = 4"
  using bit_shifted_mask_const [of "0x1e" 1 4 n] by (simp add: mask_eq_exp_minus_1) arith

text \<open>On octets \<open>mask8\<close> is the identity.\<close>

lemma mask8_id: "mask8 oc = oc"
  unfolding mask8_def by (rule bit_word_eqI) (simp add: bit_simps bit_0xff)

text \<open>A word is below \<open>2 ^ k\<close> exactly when no bit from \<open>k\<close> upwards is set.\<close>

lemma word_less_2p_bit:
  fixes w :: "'a::len word"
  assumes "w < 2 ^ k" "bit w n"
  shows "n < k"
proof -
  from assms(1) have "w AND mask k = w" by (rule less_mask_eq)
  then have "bit (w AND mask k) n" using assms(2) by simp
  then show ?thesis by (simp add: bit_and_iff bit_mask_iff)
qed

lemma word_less_2pI:
  fixes w :: "'a::len word"
  assumes "k < LENGTH('a)" "\<And>n. bit w n \<Longrightarrow> n < k"
  shows "w < 2 ^ k"
proof -
  have "w AND mask k = w"
    by (rule bit_word_eqI) (auto simp: bit_and_iff bit_mask_iff dest: assms(2))
  with assms(1) show ?thesis by (simp add: mask_eq_iff_w2p word_size)
qed

lemmas bit_consts = bit_0x3f bit_0x7ff bit_0xff bit_0xfff bit_0xffff bit_0x3ffff bit_0x1fffff bit_0x3ff bit_0x80 bit_0xc0 bit_0xe0 bit_0xf0 bit_2 bit_6 bit_0xe bit_0x1e



text \<open>The tests of the classifier, read as conditions on the bits of the octet.\<close>

lemma u8_bit_hi: "8 \<le> m \<Longrightarrow> bit (b::u8) m = False"
  by (auto dest: bit_imp_le_length)

lemma less_8_cases: "n < (8::nat) \<longleftrightarrow> n \<in> {0, 1, 2, 3, 4, 5, 6, 7}"
  by simp arith

lemma u8_less_0x80_iff: "(b::u8) < 0x80 \<longleftrightarrow> \<not> bit b 7"
proof
  assume "b < 0x80"
  then have "b < 2 ^ 7" by simp
  from word_less_2p_bit [OF this, of 7] show "\<not> bit b 7" by auto
next
  assume n: "\<not> bit b 7"
  have "b < 2 ^ 7"
  proof (rule word_less_2pI)
    fix n assume b: "bit b n"
    then have "n < 8" by (auto dest: bit_imp_le_length)
    with b n show "n < 7" by (cases "n = 7") auto
  qed simp
  then show "b < 0x80" by simp
qed

lemma is_trail_iff: "is_trail b \<longleftrightarrow> bit b 7 \<and> \<not> bit b 6"
proof
  assume "is_trail b"
  then have e: "drop_bit 6 b = 2" by (simp add: is_trail_def mask8_id)
  have "bit (drop_bit 6 b) 1" "\<not> bit (drop_bit 6 b) 0" unfolding e by simp_all
  then show "bit b 7 \<and> \<not> bit b 6" by (simp add: bit_simps)
next
  assume "bit b 7 \<and> \<not> bit b 6"
  then have "drop_bit 6 b = 2"
    by - (rule bit_word_eqI, auto simp: bit_simps bit_consts less_8_cases u8_bit_hi)
  then show "is_trail b" by (simp add: is_trail_def mask8_id)
qed

lemma drop_bit_5_eq_6_iff: "drop_bit 5 (b::u8) = 6 \<longleftrightarrow> bit b 7 \<and> bit b 6 \<and> \<not> bit b 5"
proof
  assume e: "drop_bit 5 b = 6"
  have "bit (drop_bit 5 b) 2" "bit (drop_bit 5 b) 1" "\<not> bit (drop_bit 5 b) 0"
    unfolding e by simp_all
  then show "bit b 7 \<and> bit b 6 \<and> \<not> bit b 5" by (simp add: bit_simps)
next
  assume "bit b 7 \<and> bit b 6 \<and> \<not> bit b 5"
  then show "drop_bit 5 b = 6"
    by - (rule bit_word_eqI, auto simp: bit_simps bit_consts less_8_cases u8_bit_hi)
qed

lemma drop_bit_4_eq_0xe_iff:
  "drop_bit 4 (b::u8) = 0xe \<longleftrightarrow> bit b 7 \<and> bit b 6 \<and> bit b 5 \<and> \<not> bit b 4"
proof
  assume e: "drop_bit 4 b = 0xe"
  have "bit (drop_bit 4 b) 3" "bit (drop_bit 4 b) 2" "bit (drop_bit 4 b) 1"
    "\<not> bit (drop_bit 4 b) 0"
    unfolding e by simp_all
  then show "bit b 7 \<and> bit b 6 \<and> bit b 5 \<and> \<not> bit b 4" by (simp add: bit_simps)
next
  assume "bit b 7 \<and> bit b 6 \<and> bit b 5 \<and> \<not> bit b 4"
  then show "drop_bit 4 b = 0xe"
    by - (rule bit_word_eqI, auto simp: bit_simps bit_consts less_8_cases u8_bit_hi)
qed

lemma drop_bit_3_eq_0x1e_iff:
  "drop_bit 3 (b::u8) = 0x1e \<longleftrightarrow> bit b 7 \<and> bit b 6 \<and> bit b 5 \<and> bit b 4 \<and> \<not> bit b 3"
proof
  assume e: "drop_bit 3 b = 0x1e"
  have "bit (drop_bit 3 b) 4" "bit (drop_bit 3 b) 3" "bit (drop_bit 3 b) 2"
    "bit (drop_bit 3 b) 1" "\<not> bit (drop_bit 3 b) 0"
    unfolding e by simp_all
  then show "bit b 7 \<and> bit b 6 \<and> bit b 5 \<and> bit b 4 \<and> \<not> bit b 3" by (simp add: bit_simps)
next
  assume "bit b 7 \<and> bit b 6 \<and> bit b 5 \<and> bit b 4 \<and> \<not> bit b 3"
  then show "drop_bit 3 b = 0x1e"
    by - (rule bit_word_eqI, auto simp: bit_simps bit_consts less_8_cases u8_bit_hi)
qed

lemma sequence_length_bits:
  "sequence_length mem it =
     (if it < length mem then
        (let b = mem ! it in
         Some (if \<not> bit b 7 then 1
               else if bit b 6 \<and> \<not> bit b 5 then 2
               else if bit b 6 \<and> bit b 5 \<and> \<not> bit b 4 then 3
               else if bit b 6 \<and> bit b 5 \<and> bit b 4 \<and> \<not> bit b 3 then 4
               else 0))
      else None)"
  by (auto simp: sequence_length_def deref_def Let_def mask8_id u8_less_0x80_iff
        drop_bit_5_eq_6_iff drop_bit_4_eq_0xe_iff drop_bit_3_eq_0x1e_iff)

text \<open>
  The bit fields that the \<open>get_sequence_x\<close> functions add up do not overlap, so
  the sums are bitwise disjunctions.
\<close>

lemma field_bits:
  "bit (ucast (b::u8) AND 0x3f :: u32) n \<longleftrightarrow> n < 6 \<and> bit b n"
  "bit (push_bit 6 (ucast (mask8 b)) AND 0x7ff :: u32) n \<longleftrightarrow> 6 \<le> n \<and> n < 11 \<and> bit b (n - 6)"
  "bit (push_bit 6 (ucast (mask8 b)) AND 0xfff :: u32) n \<longleftrightarrow> 6 \<le> n \<and> n < 12 \<and> bit b (n - 6)"
  "bit (push_bit 12 (ucast (mask8 b)) AND 0xffff :: u32) n \<longleftrightarrow> 12 \<le> n \<and> n < 16 \<and> bit b (n - 12)"
  "bit (push_bit 12 (ucast (mask8 b)) AND 0x3ffff :: u32) n \<longleftrightarrow> 12 \<le> n \<and> n < 18 \<and> bit b (n - 12)"
  "bit (push_bit 18 (ucast (mask8 b)) AND 0x1fffff :: u32) n \<longleftrightarrow> 18 \<le> n \<and> n < 21 \<and> bit b (n - 18)"
  by (auto simp: bit_simps bit_consts mask8_id dest: bit_imp_le_length)

lemma bit_cp2:
  "bit ((push_bit 6 (ucast (mask8 b0)) AND 0x7ff) + (ucast (b1::u8) AND 0x3f) :: u32) n \<longleftrightarrow>
     (n < 6 \<and> bit b1 n) \<or> (6 \<le> n \<and> n < 11 \<and> bit b0 (n - 6))"
proof -
  let ?A = "push_bit 6 (ucast (mask8 b0)) AND 0x7ff :: u32"
  let ?D = "ucast b1 AND 0x3f :: u32"
  have "?A + ?D = ?A OR ?D"
    by (rule disjunctive_add) (simp only: field_bits, arith)
  then show ?thesis
    by (simp only: bit_or_iff field_bits) blast
qed

lemma bit_cp3:
  "bit ((push_bit 12 (ucast (mask8 b0)) AND 0xffff)
        + (push_bit 6 (ucast (mask8 b1)) AND 0xfff) + (ucast (b2::u8) AND 0x3f) :: u32) n \<longleftrightarrow>
     (n < 6 \<and> bit b2 n) \<or> (6 \<le> n \<and> n < 12 \<and> bit b1 (n - 6))
     \<or> (12 \<le> n \<and> n < 16 \<and> bit b0 (n - 12))"
proof -
  let ?A = "push_bit 12 (ucast (mask8 b0)) AND 0xffff :: u32"
  let ?C = "push_bit 6 (ucast (mask8 b1)) AND 0xfff :: u32"
  let ?D = "ucast b2 AND 0x3f :: u32"
  have 1: "?A + ?C = ?A OR ?C"
    by (rule disjunctive_add) (simp only: field_bits, arith)
  have 2: "(?A OR ?C) + ?D = (?A OR ?C) OR ?D"
    by (rule disjunctive_add) (simp only: bit_or_iff field_bits, arith)
  show ?thesis
    by (simp only: 1 2 bit_or_iff field_bits) blast
qed

lemma bit_cp4:
  "bit ((push_bit 18 (ucast (mask8 b0)) AND 0x1fffff)
        + (push_bit 12 (ucast (mask8 b1)) AND 0x3ffff)
        + (push_bit 6 (ucast (mask8 b2)) AND 0xfff) + (ucast (b3::u8) AND 0x3f) :: u32) n \<longleftrightarrow>
     (n < 6 \<and> bit b3 n) \<or> (6 \<le> n \<and> n < 12 \<and> bit b2 (n - 6))
     \<or> (12 \<le> n \<and> n < 18 \<and> bit b1 (n - 12)) \<or> (18 \<le> n \<and> n < 21 \<and> bit b0 (n - 18))"
proof -
  let ?A = "push_bit 18 (ucast (mask8 b0)) AND 0x1fffff :: u32"
  let ?B = "push_bit 12 (ucast (mask8 b1)) AND 0x3ffff :: u32"
  let ?C = "push_bit 6 (ucast (mask8 b2)) AND 0xfff :: u32"
  let ?D = "ucast b3 AND 0x3f :: u32"
  have 1: "?A + ?B = ?A OR ?B"
    by (rule disjunctive_add) (simp only: field_bits, arith)
  have 2: "(?A OR ?B) + ?C = (?A OR ?B) OR ?C"
    by (rule disjunctive_add) (simp only: bit_or_iff field_bits, arith)
  have 3: "((?A OR ?B) OR ?C) + ?D = ((?A OR ?B) OR ?C) OR ?D"
    by (rule disjunctive_add) (simp only: bit_or_iff field_bits, arith)
  show ?thesis
    by (simp only: 1 2 3 bit_or_iff field_bits) blast
qed

section \<open>Decoding what the encoder wrote\<close>

text \<open>When \<open>validate_next\<close> succeeds, in terms of the functions it calls.\<close>

lemma validate_next_OK_iff:
  "validate_next mem it end c = Some (UTF8_OK, it', cp) \<longleftrightarrow>
     (\<exists>len it0. sequence_length mem it = Some len \<and> 0 < len
        \<and> get_sequence len mem it end 0 = Some (UTF8_OK, it0, cp)
        \<and> is_code_point_valid cp \<and> \<not> is_overlong_sequence cp len \<and> it' = Suc it0)"
  by (auto simp: validate_next_def Let_def split: option.splits if_splits)

lemma valid_less_2p21: "is_code_point_valid cp \<Longrightarrow> cp < 2 ^ 21"
  by (simp add: is_code_point_valid_def CODE_POINT_MAX_def) unat_arith

text \<open>
  For each of the four branches of \<open>append\<close>: the octets it writes pass the tests
  of the decoder, and the bit fields the decoder assembles from them give back the code
  point.
\<close>

lemma decode_encoded_1:
  assumes "(cp::u32) < 0x80" and "(b0 :: u8) = ucast cp"
  shows "\<not> bit b0 7" and "ucast (mask8 b0) = cp"
proof -
  from assms(1) have "cp < 2 ^ 7" by simp
  note hi = word_less_2p_bit [OF this]
  show "\<not> bit b0 7" unfolding assms(2) by (auto simp: bit_simps dest: hi)
  show "ucast (mask8 b0) = cp" unfolding assms(2) mask8_id
    by (rule bit_word_eqI) (auto simp: bit_simps dest: hi)
qed

lemma trail_octet_bits:
  "bit (ucast (((x::u32) AND 0x3f) OR 0x80) :: u8) m \<longleftrightarrow> m = 7 \<or> (m < 6 \<and> bit x m)"
  by (auto simp: bit_simps bit_consts)

lemma lead_octet_bits:
  "bit (ucast ((x::u32) OR 0xc0) :: u8) m \<longleftrightarrow> m = 6 \<or> m = 7 \<or> (m < 8 \<and> bit x m)"
  "bit (ucast ((x::u32) OR 0xe0) :: u8) m \<longleftrightarrow> m = 5 \<or> m = 6 \<or> m = 7 \<or> (m < 8 \<and> bit x m)"
  "bit (ucast ((x::u32) OR 0xf0) :: u8) m \<longleftrightarrow>
     m = 4 \<or> m = 5 \<or> m = 6 \<or> m = 7 \<or> (m < 8 \<and> bit x m)"
  by (auto simp: bit_simps bit_consts)

lemma decode_encoded_2:
  assumes "(cp::u32) < 0x800"
    and "(b0 :: u8) = ucast (drop_bit 6 cp OR 0xc0)"
    and "(b1 :: u8) = ucast ((cp AND 0x3f) OR 0x80)"
  shows "bit b0 7 \<and> bit b0 6 \<and> \<not> bit b0 5" and "is_trail b1"
    and "(push_bit 6 (ucast (mask8 b0)) AND 0x7ff) + (ucast b1 AND 0x3f) = cp"
proof -
  from assms(1) have "cp < 2 ^ 11" by simp
  note hi = word_less_2p_bit [OF this]
  show "bit b0 7 \<and> bit b0 6 \<and> \<not> bit b0 5"
    unfolding assms by (auto simp: lead_octet_bits bit_drop_bit_eq dest: hi)
  show "is_trail b1"
    unfolding assms is_trail_iff by (simp add: trail_octet_bits)
  show "(push_bit 6 (ucast (mask8 b0)) AND 0x7ff) + (ucast b1 AND 0x3f) = cp"
  proof (rule bit_word_eqI)
    fix n :: nat
    consider "n < 6" | "6 \<le> n" "n < 11" | "11 \<le> n" by arith
    then show "bit ((push_bit 6 (ucast (mask8 b0)) AND 0x7ff) + (ucast b1 AND 0x3f) :: u32) n = bit cp n"
      unfolding bit_cp2 assms
      by cases (auto simp: lead_octet_bits trail_octet_bits bit_drop_bit_eq dest: hi)
  qed
qed

lemma decode_encoded_3:
  assumes "(cp::u32) < 0x10000"
    and "(b0 :: u8) = ucast (drop_bit 12 cp OR 0xe0)"
    and "(b1 :: u8) = ucast ((drop_bit 6 cp AND 0x3f) OR 0x80)"
    and "(b2 :: u8) = ucast ((cp AND 0x3f) OR 0x80)"
  shows "bit b0 7 \<and> bit b0 6 \<and> bit b0 5 \<and> \<not> bit b0 4" and "is_trail b1" and "is_trail b2"
    and "(push_bit 12 (ucast (mask8 b0)) AND 0xffff)
         + (push_bit 6 (ucast (mask8 b1)) AND 0xfff) + (ucast b2 AND 0x3f) = cp"
proof -
  from assms(1) have "cp < 2 ^ 16" by simp
  note hi = word_less_2p_bit [OF this]
  show "bit b0 7 \<and> bit b0 6 \<and> bit b0 5 \<and> \<not> bit b0 4"
    unfolding assms by (auto simp: lead_octet_bits bit_drop_bit_eq dest: hi)
  show "is_trail b1" "is_trail b2"
    unfolding assms is_trail_iff by (simp_all add: trail_octet_bits)
  show "(push_bit 12 (ucast (mask8 b0)) AND 0xffff)
         + (push_bit 6 (ucast (mask8 b1)) AND 0xfff) + (ucast b2 AND 0x3f) = cp"
  proof (rule bit_word_eqI)
    fix n :: nat
    consider "n < 6" | "6 \<le> n" "n < 12" | "12 \<le> n" "n < 16" | "16 \<le> n" by arith
    then show "bit ((push_bit 12 (ucast (mask8 b0)) AND 0xffff)
         + (push_bit 6 (ucast (mask8 b1)) AND 0xfff) + (ucast b2 AND 0x3f) :: u32) n = bit cp n"
      unfolding bit_cp3 assms
      by cases (auto simp: lead_octet_bits trail_octet_bits bit_drop_bit_eq dest: hi)
  qed
qed

lemma decode_encoded_4:
  assumes "(cp::u32) < 2 ^ 21"
    and "(b0 :: u8) = ucast (drop_bit 18 cp OR 0xf0)"
    and "(b1 :: u8) = ucast ((drop_bit 12 cp AND 0x3f) OR 0x80)"
    and "(b2 :: u8) = ucast ((drop_bit 6 cp AND 0x3f) OR 0x80)"
    and "(b3 :: u8) = ucast ((cp AND 0x3f) OR 0x80)"
  shows "bit b0 7 \<and> bit b0 6 \<and> bit b0 5 \<and> bit b0 4 \<and> \<not> bit b0 3"
    and "is_trail b1" and "is_trail b2" and "is_trail b3"
    and "(push_bit 18 (ucast (mask8 b0)) AND 0x1fffff)
         + (push_bit 12 (ucast (mask8 b1)) AND 0x3ffff)
         + (push_bit 6 (ucast (mask8 b2)) AND 0xfff) + (ucast b3 AND 0x3f) = cp"
proof -
  note hi = word_less_2p_bit [OF assms(1)]
  show "bit b0 7 \<and> bit b0 6 \<and> bit b0 5 \<and> bit b0 4 \<and> \<not> bit b0 3"
    unfolding assms by (auto simp: lead_octet_bits bit_drop_bit_eq dest: hi)
  show "is_trail b1" "is_trail b2" "is_trail b3"
    unfolding assms is_trail_iff by (simp_all add: trail_octet_bits)
  show "(push_bit 18 (ucast (mask8 b0)) AND 0x1fffff)
         + (push_bit 12 (ucast (mask8 b1)) AND 0x3ffff)
         + (push_bit 6 (ucast (mask8 b2)) AND 0xfff) + (ucast b3 AND 0x3f) = cp"
  proof (rule bit_word_eqI)
    fix n :: nat
    consider "n < 6" | "6 \<le> n" "n < 12" | "12 \<le> n" "n < 18" | "18 \<le> n" "n < 21"
      | "21 \<le> n" by arith
    then show "bit ((push_bit 18 (ucast (mask8 b0)) AND 0x1fffff)
         + (push_bit 12 (ucast (mask8 b1)) AND 0x3ffff)
         + (push_bit 6 (ucast (mask8 b2)) AND 0xfff) + (ucast b3 AND 0x3f) :: u32) n = bit cp n"
      unfolding bit_cp4 assms
      by cases (auto simp: lead_octet_bits trail_octet_bits bit_drop_bit_eq dest: hi)
  qed
qed


lemma validate_next_OK_I:
  assumes "sequence_length mem it = Some len" "0 < len"
    and "get_sequence len mem it end 0 = Some (UTF8_OK, it0, cp)"
    and "is_code_point_valid cp" "\<not> is_overlong_sequence cp len"
  shows "validate_next mem it end c = Some (UTF8_OK, Suc it0, cp)"
  using assms by (simp add: validate_next_def Let_def)

lemma validate_next_appended:
  assumes v: "is_code_point_valid cp"
  shows "\<exists>bs. append cp out = Returned (out @ bs)
     \<and> length bs = (if cp < 0x80 then 1 else if cp < 0x800 then 2
                    else if cp < 0x10000 then 3 else 4)
     \<and> validate_next (out @ bs) (length out) (length out + length bs) c
         = Some (UTF8_OK, length out + length bs, cp)"
proof -
  let ?it = "length out"
  consider (1) "cp < 0x80" | (2) "\<not> cp < 0x80" "cp < 0x800"
    | (3) "\<not> cp < 0x80" "\<not> cp < 0x800" "cp < 0x10000"
    | (4) "\<not> cp < 0x80" "\<not> cp < 0x800" "\<not> cp < 0x10000"
    by blast
  then show ?thesis
  proof cases
    case 1
    define b0 :: u8 where "b0 = ucast cp"
    let ?mem = "out @ [b0]"
    note d = decode_encoded_1 [OF 1 b0_def]
    have a: "append cp out = Returned ?mem"
      using v 1 by (simp add: append_def b0_def)
    have sl: "sequence_length ?mem ?it = Some 1"
      using d by (simp add: sequence_length_bits)
    have g: "get_sequence 1 ?mem ?it (?it + 1) 0 = Some (UTF8_OK, ?it, cp)"
      using d by (simp add: get_sequence_def get_sequence_1_OK_iff)
    have "validate_next ?mem ?it (?it + 1) c = Some (UTF8_OK, Suc ?it, cp)"
      using sl g v 1 by (intro validate_next_OK_I) (simp_all add: is_overlong_sequence_def)
    with a 1 show ?thesis by (intro exI [of _ "[b0]"]) simp
  next
    case 2
    define b0 :: u8 where "b0 = ucast (drop_bit 6 cp OR 0xc0)"
    define b1 :: u8 where "b1 = ucast ((cp AND 0x3f) OR 0x80)"
    let ?mem = "out @ [b0, b1]"
    note d = decode_encoded_2 [OF 2(2) b0_def b1_def]
    have a: "append cp out = Returned ?mem"
      using v 2 by (simp add: append_def b0_def b1_def)
    have sl: "sequence_length ?mem ?it = Some 2"
      using d by (simp add: sequence_length_bits)
    have g: "get_sequence 2 ?mem ?it (?it + 2) 0 = Some (UTF8_OK, Suc ?it, cp)"
      using d by (simp add: get_sequence_def get_sequence_2_OK_iff nth_append)
    have "validate_next ?mem ?it (?it + 2) c = Some (UTF8_OK, Suc (Suc ?it), cp)"
      using sl g v 2 by (intro validate_next_OK_I) (simp_all add: is_overlong_sequence_def)
    with a 2 show ?thesis by (intro exI [of _ "[b0, b1]"]) simp
  next
    case 3
    define b0 :: u8 where "b0 = ucast (drop_bit 12 cp OR 0xe0)"
    define b1 :: u8 where "b1 = ucast ((drop_bit 6 cp AND 0x3f) OR 0x80)"
    define b2 :: u8 where "b2 = ucast ((cp AND 0x3f) OR 0x80)"
    let ?mem = "out @ [b0, b1, b2]"
    note d = decode_encoded_3 [OF 3(3) b0_def b1_def b2_def]
    have a: "append cp out = Returned ?mem"
      using v 3 by (simp add: append_def b0_def b1_def b2_def)
    have sl: "sequence_length ?mem ?it = Some 3"
      using d by (simp add: sequence_length_bits)
    have g: "get_sequence 3 ?mem ?it (?it + 3) 0 = Some (UTF8_OK, Suc (Suc ?it), cp)"
      using d by (simp add: get_sequence_def get_sequence_3_OK_iff nth_append)
    have "validate_next ?mem ?it (?it + 3) c = Some (UTF8_OK, Suc (Suc (Suc ?it)), cp)"
      using sl g v 3 by (intro validate_next_OK_I) (simp_all add: is_overlong_sequence_def)
    from this a 3 show ?thesis by (intro exI [of _ "[b0, b1, b2]"]) (simp add: eval_nat_numeral)
  next
    case 4
    define b0 :: u8 where "b0 = ucast (drop_bit 18 cp OR 0xf0)"
    define b1 :: u8 where "b1 = ucast ((drop_bit 12 cp AND 0x3f) OR 0x80)"
    define b2 :: u8 where "b2 = ucast ((drop_bit 6 cp AND 0x3f) OR 0x80)"
    define b3 :: u8 where "b3 = ucast ((cp AND 0x3f) OR 0x80)"
    let ?mem = "out @ [b0, b1, b2, b3]"
    note d = decode_encoded_4 [OF valid_less_2p21 [OF v] b0_def b1_def b2_def b3_def]
    have a: "append cp out = Returned ?mem"
      using v 4 by (simp add: append_def b0_def b1_def b2_def b3_def)
    have sl: "sequence_length ?mem ?it = Some 4"
      using d by (simp add: sequence_length_bits)
    have g: "get_sequence 4 ?mem ?it (?it + 4) 0 = Some (UTF8_OK, Suc (Suc (Suc ?it)), cp)"
      using d by (simp add: get_sequence_def get_sequence_4_OK_iff nth_append)
    have "validate_next ?mem ?it (?it + 4) c = Some (UTF8_OK, Suc (Suc (Suc (Suc ?it))), cp)"
      using sl g v 4 by (intro validate_next_OK_I) (simp_all add: is_overlong_sequence_def)
    from this a 4 show ?thesis by (intro exI [of _ "[b0, b1, b2, b3]"]) (simp add: eval_nat_numeral)
  qed
qed


text \<open>
  Claim C1. For every valid code point \<open>cp\<close> (at most 0x10FFFF and outside the
  surrogate range 0xD800 to 0xDFFF), \<open>append\<close> returns after writing octets \<open>bs\<close>
  whose number is the minimal length for \<open>cp\<close> (1 below 0x80, 2 below 0x800, 3 below
  0x10000, 4 otherwise); the checked decoder, run on these octets where they were
  written, succeeds, yields \<open>cp\<close> and advances by exactly that number of octets, both
  as \<open>validate_next\<close> and as \<open>next\<close>.
\<close>

theorem append_then_decode:
  assumes "cp \<le> 0x10FFFF" and "\<not> (0xD800 \<le> cp \<and> cp \<le> 0xDFFF)"
  shows "\<exists>bs. append cp out = Returned (out @ bs)
     \<and> length bs = (if cp < 0x80 then 1 else if cp < 0x800 then 2
                    else if cp < 0x10000 then 3 else 4)
     \<and> validate_next (out @ bs) (length out) (length out + length bs) c
         = Some (UTF8_OK, length out + length bs, cp)
     \<and> next (out @ bs) (length out) (length out + length bs)
         = Some (length out + length bs, Inr cp)"
proof -
  from assms have v: "is_code_point_valid cp"
    by (simp add: is_code_point_valid_def is_surrogate_def CODE_POINT_MAX_def
          LEAD_SURROGATE_MIN_def TRAIL_SURROGATE_MAX_def)
  from validate_next_appended [OF v, of out c] obtain bs where
    a: "append cp out = Returned (out @ bs)"
    and l: "length bs = (if cp < 0x80 then 1 else if cp < 0x800 then 2
                    else if cp < 0x10000 then 3 else 4)"
    and d: "validate_next (out @ bs) (length out) (length out + length bs) c
         = Some (UTF8_OK, length out + length bs, cp)"
    by blast
  from validate_next_code_point_param [OF d, of 0]
  have "next (out @ bs) (length out) (length out + length bs)
         = Some (length out + length bs, Inr cp)"
    by (simp add: next_Inr_iff)
  with a l d show ?thesis by blast
qed

theorem append_then_decode_witness:
  "(0x20AC :: u32) \<le> 0x10FFFF \<and> \<not> (0xD800 \<le> (0x20AC :: u32) \<and> (0x20AC :: u32) \<le> 0xDFFF)
   \<and> append 0x20AC [0x41] = Returned [0x41, 0xE2, 0x82, 0xAC]
   \<and> validate_next [0x41, 0xE2, 0x82, 0xAC] 1 4 7 = Some (UTF8_OK, 4, 0x20AC)
   \<and> next [0x41, 0xE2, 0x82, 0xAC] 1 4 = Some (4, Inr 0x20AC)"
proof -
  have a: "append 0x20AC [0x41] = Returned ([0x41] @ [0xE2, 0x82, 0xAC])"
    by (simp add: append_def decoder_defs)
  have e: "Suc (Suc (Suc (Suc 0))) = 4" by simp
  from append_then_decode [of "0x20AC" "[0x41]" 7] a
  show ?thesis by (simp add: e)
qed

section \<open>The sanitizer\<close>

text \<open>
  The two inner loops: the copy loop appends the octets between the two iterators, and
  the skip loop stops at the first octet that is not a continuation octet, or at the
  end bound.
\<close>

lemma copy_sequence_eq:
  "it \<le> stop \<Longrightarrow> stop \<le> length mem \<Longrightarrow>
     copy_sequence mem it stop out = Some (out @ take (stop - it) (drop it mem))"
proof (induction mem it stop out rule: copy_sequence.induct)
  case (1 mem it start out)
  show ?case
  proof (cases "it = start")
    case True
    then show ?thesis by (simp add: copy_sequence.simps)
  next
    case False
    with "1.prems" have lt: "it < start" "it < length mem" by simp_all
    then have d: "deref mem it = Some (mem ! it)" by (simp add: deref_def)
    from lt have "take (start - it) (drop it mem) = mem ! it # take (start - Suc it) (drop (Suc it) mem)"
      by (metis Cons_nth_drop_Suc Suc_diff_Suc take_Suc_Cons)
    with "1.IH" [OF False d] lt "1.prems" False d show ?thesis
      by (subst copy_sequence.simps) simp
  qed
qed

lemma validate_next_OK_le_end:
  assumes "validate_next mem it end c = Some (UTF8_OK, it', cp)" "it < end"
  shows "it' \<le> end"
proof -
  from assms(1) obtain len it0 where len: "sequence_length mem it = Some len" "0 < len"
    and g: "get_sequence len mem it end 0 = Some (UTF8_OK, it0, cp)" and it': "it' = Suc it0"
    unfolding validate_next_OK_iff by blast
  from len(1) have "len \<le> 4" by (simp add: sequence_length_Some)
  with len(2) consider "len = 1" | "len = 2" | "len = 3" | "len = 4" by arith
  then show ?thesis
    using g it' assms(2)
    by cases (auto simp: get_sequence_def get_sequence_1_OK_iff get_sequence_2_OK_iff
        get_sequence_3_OK_iff get_sequence_4_OK_iff)
qed

lemma skip_trail_spec:
  "start \<le> end \<Longrightarrow> end \<le> length mem \<Longrightarrow>
     \<exists>s. skip_trail mem start end = Some s \<and> start \<le> s \<and> s \<le> end
       \<and> (\<forall>i. start \<le> i \<and> i < s \<longrightarrow> is_trail (mem ! i))
       \<and> (s = end \<or> \<not> is_trail (mem ! s))"
proof (induction mem start "end" rule: skip_trail.induct)
  case (1 mem start "end")
  show ?case
  proof (cases "start \<noteq> end \<and> is_trail (mem ! start)")
    case False
    with "1.prems" show ?thesis
      by (subst skip_trail.simps) (auto simp: deref_def)
  next
    case True
    with "1.prems" have lt: "start < end" "start < length mem" by simp_all
    then have d: "deref mem start = Some (mem ! start)" by (simp add: deref_def)
    from True have ne: "start \<noteq> end" and tr: "is_trail (mem ! start)" by simp_all
    from "1.IH" [OF ne d tr] lt "1.prems" obtain s where
      s: "skip_trail mem (Suc start) end = Some s" "Suc start \<le> s" "s \<le> end"
        "\<forall>i. Suc start \<le> i \<and> i < s \<longrightarrow> is_trail (mem ! i)"
        "s = end \<or> \<not> is_trail (mem ! s)"
      by auto
    have "skip_trail mem start end = Some s"
      using ne d tr s(1) by (subst skip_trail.simps) simp
    moreover have "\<forall>i. start \<le> i \<and> i < s \<longrightarrow> is_trail (mem ! i)"
      using s(4) tr by (metis Suc_leI le_neq_implies_less)
    ultimately show ?thesis using s by auto
  qed
qed

text \<open>What \<open>append\<close> does to the output depends on the code point only.\<close>

lemma append_out:
  "append cp out =
     (case append cp [] of
        Returned bs \<Rightarrow> Returned (out @ bs)
      | Thrown e bs \<Rightarrow> Thrown e out)"
  by (simp add: append_def)

lemma append_Returned_iff:
  "(\<exists>bs. append cp [] = Returned bs) \<longleftrightarrow> is_code_point_valid cp"
  by (simp add: append_def)

lemma validate_next2_Some_iff:
  "validate_next2 mem it end = Some (err, it') \<longleftrightarrow>
     (\<exists>c. validate_next mem it end 0 = Some (err, it', c))"
  by (auto simp: validate_next2_def split: option.splits)

lemma validate_next_OK_le_length:
  assumes "validate_next mem it end c = Some (UTF8_OK, it', cp)"
  shows "it' \<le> length mem"
proof -
  from assms obtain len it0 where len: "sequence_length mem it = Some len" "0 < len"
    and g: "get_sequence len mem it end 0 = Some (UTF8_OK, it0, cp)" and it': "it' = Suc it0"
    unfolding validate_next_OK_iff by blast
  from len(1) have "len \<le> 4" by (simp add: sequence_length_Some)
  with len(2) consider "len = 1" | "len = 2" | "len = 3" | "len = 4" by arith
  then show ?thesis
    using g it'
    by cases (auto simp: get_sequence_def get_sequence_1_OK_iff get_sequence_2_OK_iff
        get_sequence_3_OK_iff get_sequence_4_OK_iff)
qed

text \<open>One iteration of the loop of \<open>replace_invalid\<close>, by the error code.\<close>

lemma replace_invalid_OK:
  assumes "start \<noteq> end" "validate_next2 mem start end = Some (UTF8_OK, p)"
  shows "replace_invalid mem start end out replacement =
           replace_invalid mem p end (out @ take (p - start) (drop start mem)) replacement"
proof -
  from assms(2) obtain c where v: "validate_next mem start end 0 = Some (UTF8_OK, p, c)"
    unfolding validate_next2_Some_iff by blast
  from validate_next_OK_it [OF v] have "start \<le> p" by auto
  with validate_next_OK_le_length [OF v]
  have "copy_sequence mem start p out = Some (out @ take (p - start) (drop start mem))"
    by (rule copy_sequence_eq [rotated])
  with assms show ?thesis
    by (subst replace_invalid.simps) simp
qed

lemma replace_invalid_INVALID_LEAD:
  assumes "start \<noteq> end" "validate_next2 mem start end = Some (INVALID_LEAD, p)"
  shows "replace_invalid mem start end out replacement =
           (case append replacement out of
              Thrown e out \<Rightarrow> Some (Thrown e out)
            | Returned out \<Rightarrow> replace_invalid mem (Suc start) end out replacement)"
proof -
  from assms(2) have "p = start"
    unfolding validate_next2_Some_iff by (auto dest: validate_next_error_it)
  with assms show ?thesis
    by (subst replace_invalid.simps) simp
qed

lemma replace_invalid_skip:
  assumes "start \<noteq> end" "validate_next2 mem start end = Some (err, p)"
    and "err = INCOMPLETE_SEQUENCE \<or> err = OVERLONG_SEQUENCE \<or> err = INVALID_CODE_POINT"
  shows "replace_invalid mem start end out replacement =
           (case append replacement out of
              Thrown e out \<Rightarrow> Some (Thrown e out)
            | Returned out \<Rightarrow>
               (case skip_trail mem (Suc start) end of
                  None \<Rightarrow> None
                | Some s \<Rightarrow> replace_invalid mem s end out replacement))"
proof -
  from assms(2,3) have "p = start"
    unfolding validate_next2_Some_iff by (auto dest: validate_next_error_it)
  with assms show ?thesis
    by (subst replace_invalid.simps) auto
qed

text \<open>
  On a range inside the buffer the sanitizer never reads outside the buffer: it returns
  or throws.
\<close>

lemma replace_invalid_NOT_ENOUGH_ROOM:
  assumes "start \<noteq> end" "validate_next2 mem start end = Some (NOT_ENOUGH_ROOM, p)"
  shows "replace_invalid mem start end out replacement = Some (Thrown not_enough_room out)"
  using assms by (subst replace_invalid.simps) simp

lemma replace_invalid_defined:
  assumes "start \<le> end" "end \<le> length mem"
  shows "\<exists>r. replace_invalid mem start end out replacement = Some r"
  using assms(1)
proof (induction "end - start" arbitrary: start out rule: less_induct)
  case less
  show ?case
  proof (cases "start = end")
    case True
    then show ?thesis by (simp add: replace_invalid.simps)
  next
    case ne: False
    with less.prems have lt: "start < end" by simp
    from validate_next_defined [OF lt assms(2), of 0] obtain err p
      where v: "validate_next2 mem start end = Some (err, p)"
      unfolding validate_next2_Some_iff by blast
    have IH: "\<exists>r. replace_invalid mem s end out' replacement = Some r"
      if "start < s" "s \<le> end" for s out'
      using less.hyps [of s out'] that lt by simp
    show ?thesis
    proof (cases err)
      case UTF8_OK
      with v have "start < p" "p \<le> end"
        unfolding validate_next2_Some_iff
        using lt by (auto dest: validate_next_OK_it validate_next_OK_le_end)
      with replace_invalid_OK [OF ne, of mem p out replacement] v UTF8_OK IH
      show ?thesis by simp
    next
      case NOT_ENOUGH_ROOM
      with replace_invalid_NOT_ENOUGH_ROOM [OF ne, of mem p out replacement] v
      show ?thesis by simp
    next
      case INVALID_LEAD
      with replace_invalid_INVALID_LEAD [OF ne, of mem p out replacement] v
        IH [of "Suc start"] lt
      show ?thesis by (auto split: written.splits)
    next
      case INCOMPLETE_SEQUENCE
      from lt have "Suc start \<le> end" by simp
      from skip_trail_spec [OF this assms(2)] obtain s where
        s: "skip_trail mem (Suc start) end = Some s" "Suc start \<le> s" "s \<le> end"
        by blast
      from replace_invalid_skip [OF ne v, of out replacement] INCOMPLETE_SEQUENCE s IH [of s]
      show ?thesis by (auto split: written.splits)
    next
      case OVERLONG_SEQUENCE
      from lt have "Suc start \<le> end" by simp
      from skip_trail_spec [OF this assms(2)] obtain s where
        s: "skip_trail mem (Suc start) end = Some s" "Suc start \<le> s" "s \<le> end"
        by blast
      from replace_invalid_skip [OF ne v, of out replacement] OVERLONG_SEQUENCE s IH [of s]
      show ?thesis by (auto split: written.splits)
    next
      case INVALID_CODE_POINT
      from lt have "Suc start \<le> end" by simp
      from skip_trail_spec [OF this assms(2)] obtain s where
        s: "skip_trail mem (Suc start) end = Some s" "Suc start \<le> s" "s \<le> end"
        by blast
      from replace_invalid_skip [OF ne v, of out replacement] INVALID_CODE_POINT s IH [of s]
      show ?thesis by (auto split: written.splits)
    qed
  qed
qed

lemma take_drop_chain:
  assumes "a \<le> b" "b \<le> c"
  shows "take (b - a) (drop a xs) @ take (c - b) (drop b xs) = take (c - a) (drop a xs)"
proof -
  from assms have "c - a = (b - a) + (c - b)" by simp
  moreover from assms have "drop (b - a) (drop a xs) = drop b xs" by simp
  ultimately show ?thesis by (simp add: take_add)
qed

text \<open>
  The loop at the end bound, and the first failing position: \<open>find_invalid\<close> is total
  on a range inside the buffer, and everything before the position it returns is
  copied verbatim. At that position the run returns (end bound), throws
  (\<open>NOT_ENOUGH_ROOM\<close>, or a replacement that \<open>append\<close> rejects), or writes one
  replacement and goes on.
\<close>

lemma replace_invalid_end: "replace_invalid mem e e out replacement = Some (Returned out)"
  by (simp add: replace_invalid.simps)

lemma find_invalid_end: "find_invalid mem e e = Some e"
  by (simp add: find_invalid.simps)

lemma find_invalid_OK:
  "start \<noteq> end \<Longrightarrow> validate_next2 mem start end = Some (UTF8_OK, p) \<Longrightarrow>
     find_invalid mem start end = find_invalid mem p end"
  by (subst find_invalid.simps) simp

lemma find_invalid_error:
  "start \<noteq> end \<Longrightarrow> validate_next2 mem start end = Some (err, p) \<Longrightarrow> err \<noteq> UTF8_OK \<Longrightarrow>
     find_invalid mem start end = Some p"
  by (subst find_invalid.simps) simp

lemma well_formed_run:
  assumes "start \<le> end" "end \<le> length mem"
  shows "\<exists>p. find_invalid mem start end = Some p \<and> start \<le> p \<and> p \<le> end
     \<and> (p \<noteq> end \<longrightarrow> (\<exists>err. validate_next2 mem p end = Some (err, p) \<and> err \<noteq> UTF8_OK))
     \<and> (\<forall>out. replace_invalid mem start end out replacement
            = replace_invalid mem p end (out @ take (p - start) (drop start mem)) replacement)"
  using assms(1)
proof (induction "end - start" arbitrary: start rule: less_induct)
  case less
  show ?case
  proof (cases "start = end")
    case True
    then show ?thesis by (simp add: find_invalid_end)
  next
    case ne: False
    with less.prems have lt: "start < end" by simp
    from validate_next_defined [OF lt assms(2), of 0] obtain err q
      where v: "validate_next2 mem start end = Some (err, q)"
      unfolding validate_next2_Some_iff by blast
    show ?thesis
    proof (cases "err = UTF8_OK")
      case False
      with v have q: "q = start" by (auto dest: validate_next2_progress)
      from find_invalid_error [OF ne v False] q v False lt show ?thesis
        by (intro exI [of _ start]) auto
    next
      case True
      with v lt have q: "start < q" "q \<le> end"
        unfolding validate_next2_Some_iff
        by (auto dest: validate_next_OK_it validate_next_OK_le_end)
      from v True have v': "validate_next2 mem start end = Some (UTF8_OK, q)" by simp
      from q lt have "end - q < end - start" by simp
      from less.hyps [OF this q(2)] obtain p where
        p: "find_invalid mem q end = Some p" "q \<le> p" "p \<le> end"
          "p \<noteq> end \<longrightarrow> (\<exists>err. validate_next2 mem p end = Some (err, p) \<and> err \<noteq> UTF8_OK)"
          "\<And>out. replace_invalid mem q end out replacement
            = replace_invalid mem p end (out @ take (p - q) (drop q mem)) replacement"
        by blast
      have "replace_invalid mem start end out replacement
            = replace_invalid mem p end (out @ take (p - start) (drop start mem)) replacement"
        for out
        using replace_invalid_OK [OF ne v', of out replacement]
          p(5) [of "out @ take (q - start) (drop start mem)"]
          take_drop_chain [of start q p mem] q(1) p(2)
        by simp
      with p q find_invalid_OK [OF ne v'] show ?thesis
        by (intro exI [of _ p]) auto
    qed
  qed
qed

lemma replace_invalid_first_failure:
  assumes "start \<le> end" and "end \<le> length mem"
  shows "\<exists>p. find_invalid mem start end = Some p \<and> start \<le> p \<and> p \<le> end \<and>
           (let copied = out @ take (p - start) (drop start mem) in
            if p = end
            then replace_invalid mem start end out replacement = Some (Returned copied)
            else \<exists>err s. validate_next2 mem p end = Some (err, p) \<and> err \<noteq> UTF8_OK
                   \<and> Suc p \<le> s \<and> s \<le> end \<and> (\<forall>i \<in> {Suc p ..< s}. is_trail (mem ! i))
                   \<and> (s = end \<or> \<not> is_trail (mem ! s))
                   \<and> replace_invalid mem start end out replacement =
                       (if err = NOT_ENOUGH_ROOM then Some (Thrown not_enough_room copied)
                        else case append replacement [] of
                               Thrown e x \<Rightarrow> Some (Thrown e copied)
                             | Returned mark \<Rightarrow>
                                 replace_invalid mem (if err = INVALID_LEAD then Suc p else s) end
                                   (copied @ mark) replacement))"
proof -
  from well_formed_run [OF assms, of replacement] obtain p where
    f: "find_invalid mem start end = Some p" and le: "start \<le> p" "p \<le> end"
    and fail: "p \<noteq> end \<longrightarrow> (\<exists>err. validate_next2 mem p end = Some (err, p) \<and> err \<noteq> UTF8_OK)"
    and run: "\<And>out. replace_invalid mem start end out replacement
            = replace_invalid mem p end (out @ take (p - start) (drop start mem)) replacement"
    by blast
  define copied where "copied = out @ take (p - start) (drop start mem)"
  have r: "replace_invalid mem start end out replacement
      = replace_invalid mem p end copied replacement"
    unfolding copied_def by (rule run)
  have "if p = end
        then replace_invalid mem start end out replacement = Some (Returned copied)
        else \<exists>err s. validate_next2 mem p end = Some (err, p) \<and> err \<noteq> UTF8_OK
               \<and> Suc p \<le> s \<and> s \<le> end \<and> (\<forall>i \<in> {Suc p ..< s}. is_trail (mem ! i))
               \<and> (s = end \<or> \<not> is_trail (mem ! s))
               \<and> replace_invalid mem start end out replacement =
                   (if err = NOT_ENOUGH_ROOM then Some (Thrown not_enough_room copied)
                    else case append replacement [] of
                           Thrown e x \<Rightarrow> Some (Thrown e copied)
                         | Returned mark \<Rightarrow>
                             replace_invalid mem (if err = INVALID_LEAD then Suc p else s) end
                               (copied @ mark) replacement)"
  proof (cases "p = end")
    case True
    with r show ?thesis by (simp add: replace_invalid_end)
  next
    case ne: False
    with fail obtain err where v: "validate_next2 mem p end = Some (err, p)"
      and e: "err \<noteq> UTF8_OK"
      by blast
    from ne le have "Suc p \<le> end" by simp
    from skip_trail_spec [OF this assms(2)] obtain s where
      s: "skip_trail mem (Suc p) end = Some s" "Suc p \<le> s" "s \<le> end"
        "\<forall>i. Suc p \<le> i \<and> i < s \<longrightarrow> is_trail (mem ! i)"
        "s = end \<or> \<not> is_trail (mem ! s)"
      by blast
    have a: "append replacement copied =
        (case append replacement [] of
           Returned bs \<Rightarrow> Returned (copied @ bs)
         | Thrown e bs \<Rightarrow> Thrown e copied)"
      by (rule append_out)
    have "replace_invalid mem p end copied replacement =
            (if err = NOT_ENOUGH_ROOM then Some (Thrown not_enough_room copied)
             else case append replacement [] of
                    Thrown e x \<Rightarrow> Some (Thrown e copied)
                  | Returned mark \<Rightarrow>
                      replace_invalid mem (if err = INVALID_LEAD then Suc p else s) end
                        (copied @ mark) replacement)"
    proof (cases err)
      case UTF8_OK
      with e show ?thesis by simp
    next
      case NOT_ENOUGH_ROOM
      with replace_invalid_NOT_ENOUGH_ROOM [OF ne, of mem p copied replacement] v
      show ?thesis by simp
    next
      case INVALID_LEAD
      with replace_invalid_INVALID_LEAD [OF ne, of mem p copied replacement] v
      show ?thesis by (simp add: a split: written.splits)
    next
      case INCOMPLETE_SEQUENCE
      with replace_invalid_skip [OF ne v, of copied replacement] s(1)
      show ?thesis by (simp add: a split: written.splits)
    next
      case OVERLONG_SEQUENCE
      with replace_invalid_skip [OF ne v, of copied replacement] s(1)
      show ?thesis by (simp add: a split: written.splits)
    next
      case INVALID_CODE_POINT
      with replace_invalid_skip [OF ne v, of copied replacement] s(1)
      show ?thesis by (simp add: a split: written.splits)
    qed
    with r v e s ne show ?thesis by auto
  qed
  with f le show ?thesis
    unfolding copied_def by (auto simp: Let_def)
qed

text \<open>
  The skip loop computes \<open>skipped\<close>, and a range has one complete list of decode
  attempts only: one that ends at the end bound or at an attempt that fails with
  \<open>NOT_ENOUGH_ROOM\<close>.
\<close>

lemma skip_trail_skipped:
  assumes "a \<le> end" "end \<le> length mem"
  shows "\<exists>q. skip_trail mem a end = Some q \<and> skipped mem end a q"
proof -
  from skip_trail_spec [OF assms] obtain s where
    s: "skip_trail mem a end = Some s" "a \<le> s" "s \<le> end"
       "\<forall>i. a \<le> i \<and> i < s \<longrightarrow> is_trail (mem ! i)" "s = end \<or> \<not> is_trail (mem ! s)"
    by blast
  then have "skipped mem end a s"
    by (simp add: skipped_def list_all_iff)
  with s(1) show ?thesis by blast
qed

lemma skipped_less:
  "skipped mem end a q \<Longrightarrow> skipped mem end a q' \<Longrightarrow> q < q' \<Longrightarrow> False"
  by (auto simp: skipped_def list_all_iff)

lemma skipped_unique:
  "skipped mem end a q \<Longrightarrow> skipped mem end a q' \<Longrightarrow> q = q'"
  using skipped_less [of mem "end" a q q'] skipped_less [of mem "end" a q' q]
  by (cases q q' rule: linorder_cases) auto

lemma scan_deterministic:
  assumes "scan mem end a xs b"
    and "b = end \<or> validate_next2 mem b end = Some (NOT_ENOUGH_ROOM, b)"
    and "scan mem end a ys b'"
    and "b' = end \<or> validate_next2 mem b' end = Some (NOT_ENOUGH_ROOM, b')"
  shows "xs = ys \<and> b = b'"
  using assms
proof (induction xs arbitrary: a ys)
  case Nil
  show ?case
  proof (cases ys)
    case Nil
    with Nil.prems show ?thesis by simp
  next
    case (Cons y ys')
    with Nil.prems show ?thesis
      by (cases y) (auto split: option.splits utf_error.splits)
  qed
next
  case (Cons x xs)
  show ?case
  proof (cases ys)
    case Nil
    with Cons.prems show ?thesis
      by (cases x) (auto split: option.splits utf_error.splits)
  next
    case ys: (Cons y ys')
    show ?thesis
    proof (cases x)
      case (Copied q)
      show ?thesis
      proof (cases y)
        case c: (Copied q')
        from Cons.prems ys Copied c have "q' = q" by simp
        with Cons.IH [of q ys'] Cons.prems ys Copied c show ?thesis by simp
      next
        case (Replaced q')
        with Cons.prems ys Copied show ?thesis by simp
      qed
    next
      case (Replaced q)
      show ?thesis
      proof (cases y)
        case (Copied q')
        with Cons.prems ys Replaced show ?thesis by simp
      next
        case r: (Replaced q')
        from Cons.prems ys Replaced r have "q' = q"
          by (auto split: option.splits utf_error.splits dest: skipped_unique)
        with Cons.IH [of q ys'] Cons.prems ys Replaced r show ?thesis by simp
      qed
    qed
  qed
qed

text \<open>
  Claim C4, amended. On a range inside the buffer and with a valid replacement code
  point, whose encoding is \<open>mark\<close>, \<open>replace_invalid\<close> makes the decode attempts of
  \<open>scan\<close> from \<open>start\<close> up to a position \<open>b\<close>, and what it has written is \<open>out\<close>
  followed by \<open>written_by\<close>: the octets of every well-formed unit verbatim, and exactly
  one replacement for each attempt that fails with \<open>INVALID_LEAD\<close>,
  \<open>INCOMPLETE_SEQUENCE\<close>, \<open>OVERLONG_SEQUENCE\<close> or \<open>INVALID_CODE_POINT\<close>. After
  \<open>INVALID_LEAD\<close> the run goes on exactly one octet further; after the three other
  errors it advances one octet and then skips all immediately following octets that
  test as continuation octets. The run ends at the end bound, where the call returns,
  or at an attempt that fails with \<open>NOT_ENOUGH_ROOM\<close>: that attempt gets no
  replacement, and the call throws \<open>not_enough_room\<close> with what was written before it.
  In particular the input 48 65 FF 6C 6C 6F is sanitized to the octets of "He", the
  encoding EF BF BD of one U+FFFD, and the octets of "llo".
\<close>

theorem replace_invalid_run:
  assumes "start \<le> end" and "end \<le> length mem"
    and "append replacement [] = Returned mark"
  shows "(\<exists>xs b. scan mem end start xs b
            \<and> (b = end \<or> validate_next2 mem b end = Some (NOT_ENOUGH_ROOM, b))
            \<and> replace_invalid mem start end out replacement =
                (if b = end then Some (Returned (out @ written_by mem mark start xs))
                 else Some (Thrown not_enough_room (out @ written_by mem mark start xs))))
       \<and> replace_invalid_default [0x48, 0x65, 0xFF, 0x6C, 0x6C, 0x6F] 0 6 []
           = Some (Returned ([0x48, 0x65] @ [0xEF, 0xBF, 0xBD] @ [0x6C, 0x6C, 0x6F]))"
proof -
  have a: "append replacement out = Returned (out @ mark)" for out
    using assms(3) by (subst append_out) simp
  have "\<exists>xs b. scan mem end start xs b
            \<and> (b = end \<or> validate_next2 mem b end = Some (NOT_ENOUGH_ROOM, b))
            \<and> replace_invalid mem start end out replacement =
                (if b = end then Some (Returned (out @ written_by mem mark start xs))
                 else Some (Thrown not_enough_room (out @ written_by mem mark start xs)))"
    using assms(1)
  proof (induction "end - start" arbitrary: start out rule: less_induct)
    case less
    show ?case
    proof (cases "start = end")
      case True
      then show ?thesis
        by (intro exI [of _ "[]"] exI [of _ "end"]) (simp add: replace_invalid_end)
    next
      case ne: False
      with less.prems have lt: "start < end" by simp
      from validate_next_defined [OF lt assms(2), of 0] obtain err q
        where v: "validate_next2 mem start end = Some (err, q)"
        unfolding validate_next2_Some_iff by blast
      have IH: "\<exists>xs b. scan mem end s xs b
            \<and> (b = end \<or> validate_next2 mem b end = Some (NOT_ENOUGH_ROOM, b))
            \<and> replace_invalid mem s end out' replacement =
                (if b = end then Some (Returned (out' @ written_by mem mark s xs))
                 else Some (Thrown not_enough_room (out' @ written_by mem mark s xs)))"
        if "start < s" "s \<le> end" for s out'
        using less.hyps [of s out'] that lt by simp
      have rep: ?thesis
        if q': "start < q'" "q' \<le> end"
          and sc: "\<And>xs b. scan mem end q' xs b \<Longrightarrow> scan mem end start (Replaced q' # xs) b"
          and r: "replace_invalid mem start end out replacement
                  = replace_invalid mem q' end (out @ mark) replacement"
        for q'
      proof -
        from IH [OF q', of "out @ mark"] obtain xs b where
          x: "scan mem end q' xs b"
             "b = end \<or> validate_next2 mem b end = Some (NOT_ENOUGH_ROOM, b)"
             "replace_invalid mem q' end (out @ mark) replacement =
                (if b = end then Some (Returned ((out @ mark) @ written_by mem mark q' xs))
                 else Some (Thrown not_enough_room ((out @ mark) @ written_by mem mark q' xs)))"
          by blast
        from sc [OF x(1)] x(2,3) r show ?thesis
          by (intro exI [of _ "Replaced q' # xs"] exI [of _ b]) simp
      qed
      show ?thesis
      proof (cases err)
        case UTF8_OK
        with v lt have q: "start < q" "q \<le> end"
          unfolding validate_next2_Some_iff
          by (auto dest: validate_next_OK_it validate_next_OK_le_end)
        let ?out = "out @ take (q - start) (drop start mem)"
        from IH [OF q, of ?out] obtain xs b where
          x: "scan mem end q xs b"
             "b = end \<or> validate_next2 mem b end = Some (NOT_ENOUGH_ROOM, b)"
             "replace_invalid mem q end ?out replacement =
                (if b = end then Some (Returned (?out @ written_by mem mark q xs))
                 else Some (Thrown not_enough_room (?out @ written_by mem mark q xs)))"
          by blast
        from replace_invalid_OK [OF ne, of mem q out replacement] v UTF8_OK x ne
        show ?thesis
          by (intro exI [of _ "Copied q # xs"] exI [of _ b]) simp
      next
        case NOT_ENOUGH_ROOM
        with v have "q = start" by (auto dest: validate_next2_progress)
        with replace_invalid_NOT_ENOUGH_ROOM [OF ne, of mem q out replacement] v
          NOT_ENOUGH_ROOM ne
        show ?thesis
          by (intro exI [of _ "[]"] exI [of _ start]) simp
      next
        case INVALID_LEAD
        from lt have "start < Suc start" "Suc start \<le> end" by simp_all
        then show ?thesis
        proof (rule rep)
          show "scan mem end start (Replaced (Suc start) # xs) b"
            if "scan mem end (Suc start) xs b" for xs b
            using that v ne INVALID_LEAD by simp
          show "replace_invalid mem start end out replacement
                  = replace_invalid mem (Suc start) end (out @ mark) replacement"
            using replace_invalid_INVALID_LEAD [OF ne, of mem q out replacement] v INVALID_LEAD
            by (simp add: a)
        qed
      next
        case INCOMPLETE_SEQUENCE
        from lt have "Suc start \<le> end" by simp
        from skip_trail_skipped [OF this assms(2)] obtain s where
          s: "skip_trail mem (Suc start) end = Some s" "skipped mem end (Suc start) s"
          by blast
        then have "start < s" "s \<le> end" by (simp_all add: skipped_def)
        then show ?thesis
        proof (rule rep)
          show "scan mem end start (Replaced s # xs) b" if "scan mem end s xs b" for xs b
            using that v ne INCOMPLETE_SEQUENCE s(2) by simp
          show "replace_invalid mem start end out replacement
                  = replace_invalid mem s end (out @ mark) replacement"
            using replace_invalid_skip [OF ne v, of out replacement] INCOMPLETE_SEQUENCE s(1)
            by (simp add: a)
        qed
      next
        case OVERLONG_SEQUENCE
        from lt have "Suc start \<le> end" by simp
        from skip_trail_skipped [OF this assms(2)] obtain s where
          s: "skip_trail mem (Suc start) end = Some s" "skipped mem end (Suc start) s"
          by blast
        then have "start < s" "s \<le> end" by (simp_all add: skipped_def)
        then show ?thesis
        proof (rule rep)
          show "scan mem end start (Replaced s # xs) b" if "scan mem end s xs b" for xs b
            using that v ne OVERLONG_SEQUENCE s(2) by simp
          show "replace_invalid mem start end out replacement
                  = replace_invalid mem s end (out @ mark) replacement"
            using replace_invalid_skip [OF ne v, of out replacement] OVERLONG_SEQUENCE s(1)
            by (simp add: a)
        qed
      next
        case INVALID_CODE_POINT
        from lt have "Suc start \<le> end" by simp
        from skip_trail_skipped [OF this assms(2)] obtain s where
          s: "skip_trail mem (Suc start) end = Some s" "skipped mem end (Suc start) s"
          by blast
        then have "start < s" "s \<le> end" by (simp_all add: skipped_def)
        then show ?thesis
        proof (rule rep)
          show "scan mem end start (Replaced s # xs) b" if "scan mem end s xs b" for xs b
            using that v ne INVALID_CODE_POINT s(2) by simp
          show "replace_invalid mem start end out replacement
                  = replace_invalid mem s end (out @ mark) replacement"
            using replace_invalid_skip [OF ne v, of out replacement] INVALID_CODE_POINT s(1)
            by (simp add: a)
        qed
      qed
    qed
  qed
  moreover have "replace_invalid_default [0x48, 0x65, 0xFF, 0x6C, 0x6C, 0x6F] 0 6 []
           = Some (Returned ([0x48, 0x65] @ [0xEF, 0xBF, 0xBD] @ [0x6C, 0x6C, 0x6F]))"
    by code_simp
  ultimately show ?thesis by blast
qed

theorem replace_invalid_run_witness:
  "append 0xfffd [] = Returned [0xEF, 0xBF, 0xBD]
   \<and> length [0x48, 0x65, 0xFF, 0x6C, 0x6C, 0x6F :: u8] = 6
   \<and> scan [0x48, 0x65, 0xFF, 0x6C, 0x6C, 0x6F] 6 0
        [Copied 1, Copied 2, Replaced 3, Copied 4, Copied 5, Copied 6] 6
   \<and> replace_invalid [0x48, 0x65, 0xFF, 0x6C, 0x6C, 0x6F] 0 6 [] 0xfffd
       = Some (Returned [0x48, 0x65, 0xEF, 0xBF, 0xBD, 0x6C, 0x6C, 0x6F])
   \<and> length [0x41, 0xC0, 0x80, 0x80, 0x42, 0xE2, 0x82 :: u8] = 7
   \<and> scan [0x41, 0xC0, 0x80, 0x80, 0x42, 0xE2, 0x82] 7 0 [Copied 1, Replaced 4, Copied 5] 5
   \<and> validate_next2 [0x41, 0xC0, 0x80, 0x80, 0x42, 0xE2, 0x82] 5 7 = Some (NOT_ENOUGH_ROOM, 5)
   \<and> replace_invalid [0x41, 0xC0, 0x80, 0x80, 0x42, 0xE2, 0x82] 0 7 [] 0xfffd
       = Some (Thrown not_enough_room [0x41, 0xEF, 0xBF, 0xBD, 0x42])"
proof -
  let ?m = "[0x48, 0x65, 0xFF, 0x6C, 0x6C, 0x6F] :: u8 list"
  let ?t = "[Copied 1, Copied 2, Replaced 3, Copied 4, Copied 5, Copied 6]"
  let ?m' = "[0x41, 0xC0, 0x80, 0x80, 0x42, 0xE2, 0x82] :: u8 list"
  let ?t' = "[Copied 1, Replaced 4, Copied 5]"
  have a: "append 0xfffd [] = Returned [0xEF, 0xBF, 0xBD]"
    by (simp add: append_def decoder_defs)
  have l: "(0::nat) \<le> 6" "6 \<le> length ?m" and l': "(0::nat) \<le> 7" "7 \<le> length ?m'"
    by simp_all
  have s: "scan ?m 6 0 ?t 6" and s': "scan ?m' 7 0 ?t' 5"
    and v: "validate_next2 ?m' 5 7 = Some (NOT_ENOUGH_ROOM, 5)"
    by code_simp+
  from replace_invalid_run [OF l a, of "[]"] obtain xs b where
    x: "scan ?m 6 0 xs b" "b = 6 \<or> validate_next2 ?m b 6 = Some (NOT_ENOUGH_ROOM, b)"
       "replace_invalid ?m 0 6 [] 0xfffd =
          (if b = 6 then Some (Returned ([] @ written_by ?m [0xEF, 0xBF, 0xBD] 0 xs))
           else Some (Thrown not_enough_room ([] @ written_by ?m [0xEF, 0xBF, 0xBD] 0 xs)))"
    by blast
  from scan_deterministic [OF x(1,2) s] have "xs = ?t" "b = 6" by simp_all
  with x(3) have 1: "replace_invalid ?m 0 6 [] 0xfffd
       = Some (Returned [0x48, 0x65, 0xEF, 0xBF, 0xBD, 0x6C, 0x6C, 0x6F])"
    by simp
  from replace_invalid_run [OF l' a, of "[]"] obtain xs' b' where
    x': "scan ?m' 7 0 xs' b'" "b' = 7 \<or> validate_next2 ?m' b' 7 = Some (NOT_ENOUGH_ROOM, b')"
       "replace_invalid ?m' 0 7 [] 0xfffd =
          (if b' = 7 then Some (Returned ([] @ written_by ?m' [0xEF, 0xBF, 0xBD] 0 xs'))
           else Some (Thrown not_enough_room ([] @ written_by ?m' [0xEF, 0xBF, 0xBD] 0 xs')))"
    by blast
  from v have "5 = (7::nat) \<or> validate_next2 ?m' 5 7 = Some (NOT_ENOUGH_ROOM, 5)" by simp
  from scan_deterministic [OF x'(1,2) s' this] have "xs' = ?t'" "b' = 5" by simp_all
  with x'(3) have 2: "replace_invalid ?m' 0 7 [] 0xfffd
       = Some (Thrown not_enough_room [0x41, 0xEF, 0xBF, 0xBD, 0x42])"
    by simp
  from a s s' v 1 2 show ?thesis by simp
qed

text \<open>
  Claim C4 as stated promises exactly one replacement code point per maximal malformed
  run. The input FF FF refutes it: neither octet starts a well-formed unit, so the two
  octets are one malformed run, and the output holds two replacement markers, because
  after \<open>INVALID_LEAD\<close> the loop advances by one octet only.
\<close>

theorem replace_invalid_adjacent_counterexample:
  "validate_next2 [0xFF, 0xFF] 0 2 = Some (INVALID_LEAD, 0)
   \<and> validate_next2 [0xFF, 0xFF] 1 2 = Some (INVALID_LEAD, 1)
   \<and> append 0xfffd [] = Returned [0xEF, 0xBF, 0xBD]
   \<and> replace_invalid [0xFF, 0xFF] 0 2 [] 0xfffd
       = Some (Returned ([0xEF, 0xBF, 0xBD] @ [0xEF, 0xBF, 0xBD]))
   \<and> replace_invalid [0xFF, 0xFF] 0 2 [] 0xfffd \<noteq> Some (Returned [0xEF, 0xBF, 0xBD])"
  by code_simp


section \<open>The sanitizer with an invalid replacement\<close>

lemma append_invalid:
  "\<not> is_code_point_valid cp \<Longrightarrow> append cp out = Thrown (invalid_code_point cp) out"
  by (simp add: append_def)

lemma find_invalid_ge: "find_invalid mem start end = Some p \<Longrightarrow> start \<le> p"
proof (induction mem start "end" rule: find_invalid.induct)
  case (1 mem result "end")
  show ?case
  proof (cases "result = end")
    case True
    with "1.prems" show ?thesis by (simp add: find_invalid.simps)
  next
    case False
    with "1.prems" obtain err r' where v: "validate_next2 mem result end = Some (err, r')"
      by (subst (asm) find_invalid.simps) (auto split: option.splits)
    show ?thesis
    proof (cases "err = UTF8_OK")
      case True
      with False v "1.prems" have "find_invalid mem r' end = Some p"
        by (subst (asm) find_invalid.simps) simp
      with "1.IH" [OF False v refl] True have "r' \<le> p" by simp
      moreover from v True have "result < r'" by (auto dest: validate_next2_progress)
      ultimately show ?thesis by simp
    next
      case e: False
      with False v "1.prems" have "p = r'"
        by (subst (asm) find_invalid.simps) simp
      with v e show ?thesis by (auto dest: validate_next2_progress)
    qed
  qed
qed

text \<open>
  A decode that fails with \<open>NOT_ENOUGH_ROOM\<close> is a truncated tail: every octet
  after its lead octet, up to the end bound, is a continuation octet.
\<close>

lemma not_enough_room_tail:
  assumes v: "validate_next mem p end c = Some (NOT_ENOUGH_ROOM, p', c')"
    and rng: "p < end" "end \<le> length mem"
  shows "\<forall>i. p < i \<and> i < end \<longrightarrow> is_trail (mem ! i)"
proof -
  from v obtain len it0 c0 where len: "sequence_length mem p = Some len"
    and g: "get_sequence len mem p end 0 = Some (NOT_ENOUGH_ROOM, it0, c0)"
    by (auto simp: validate_next_def Let_def split: option.splits if_splits)
  have inc: "increase_safely mem i end =
           Some (if Suc i = end then NOT_ENOUGH_ROOM
                 else if is_trail (mem ! Suc i) then UTF8_OK else INCOMPLETE_SEQUENCE, Suc i)"
    if "i < end" for i
    using that rng(2) by (rule increase_safely_cases)
  have n: "deref mem i = Some (mem ! i)" if "i < end" for i
    using that rng by (simp add: deref_def)
  from g rng have "end = Suc p \<or> (end = Suc (Suc p) \<and> is_trail (mem ! Suc p))
      \<or> (end = Suc (Suc (Suc p)) \<and> is_trail (mem ! Suc p) \<and> is_trail (mem ! Suc (Suc p)))"
    by (auto simp: get_sequence_def get_sequence_1_def get_sequence_2_def get_sequence_3_def
          get_sequence_4_def n inc Let_def split: if_splits)
  then show ?thesis
    by (auto simp: less_Suc_eq)
qed

text \<open>
  Claim C9. \<open>replace_invalid\<close> encodes the replacement with the checked
  \<open>append\<close>. When the input holds a malformed unit, that is, when the first position
  \<open>p\<close> at which the checked decode fails is reached with an error code other than
  \<open>NOT_ENOUGH_ROOM\<close> (a truncated tail is not substituted), and the replacement is a
  surrogate value or exceeds 0x10FFFF, the whole call throws \<open>invalid_code_point\<close>
  carrying the replacement. The output then holds only the octets of the well-formed
  units before \<open>p\<close>: no replacement octet is written.
\<close>

theorem replace_invalid_invalid_replacement:
  assumes "find_invalid mem start end = Some p" and "p \<noteq> end"
    and "validate_next2 mem p end = Some (err, p')" and "err \<noteq> NOT_ENOUGH_ROOM"
    and "replacement > 0x10FFFF \<or> (0xD800 \<le> replacement \<and> replacement \<le> 0xDFFF)"
  shows "replace_invalid mem start end out replacement =
           Some (Thrown (invalid_code_point replacement)
                   (out @ take (p - start) (drop start mem)))"
proof -
  from assms(5) have inv: "\<not> is_code_point_valid replacement"
    by (auto simp: is_code_point_valid_def is_surrogate_def CODE_POINT_MAX_def
          LEAD_SURROGATE_MIN_def TRAIL_SURROGATE_MAX_def)
  from assms(1-4) show ?thesis
  proof (induction mem start "end" arbitrary: out rule: find_invalid.induct)
    case (1 mem result "end")
    note f0 = "1.prems"(1) and pe = "1.prems"(2) and vp = "1.prems"(3) and nr = "1.prems"(4)
    from f0 pe have ne: "result \<noteq> end"
      by (auto simp: find_invalid.simps)
    with f0 obtain e r' where v: "validate_next2 mem result end = Some (e, r')"
      by (subst (asm) find_invalid.simps) (auto split: option.splits)
    show ?case
    proof (cases "e = UTF8_OK")
      case True
      with ne v f0 have f: "find_invalid mem r' end = Some p"
        by (subst (asm) find_invalid.simps) simp
      from v True have le: "result \<le> r'" by (auto dest: validate_next2_progress)
      from find_invalid_ge [OF f] have le': "r' \<le> p" .
      from "1.IH" [OF ne v refl _ f pe vp nr, of "out @ take (r' - result) (drop result mem)"]
        True
      have "replace_invalid mem r' end (out @ take (r' - result) (drop result mem)) replacement
          = Some (Thrown (invalid_code_point replacement)
                    (out @ take (p - result) (drop result mem)))"
        by (simp add: take_drop_chain [OF le le'])
      with replace_invalid_OK [OF ne, of mem r' out replacement] v True show ?thesis by simp
    next
      case False
      with ne v f0 have "p = r'"
        by (subst (asm) find_invalid.simps) simp
      moreover from v False have "r' = result" by (auto dest: validate_next2_progress)
      ultimately have p: "p = result" by simp
      with v vp have e: "e = err" by simp
      from False e nr consider "e = INVALID_LEAD"
        | "e = INCOMPLETE_SEQUENCE \<or> e = OVERLONG_SEQUENCE \<or> e = INVALID_CODE_POINT"
        by (cases e) auto
      then show ?thesis
      proof cases
        case 1
        with replace_invalid_INVALID_LEAD [OF ne, of mem r' out replacement] v p
        show ?thesis by (simp add: append_invalid [OF inv])
      next
        case 2
        from replace_invalid_skip [OF ne v 2, of out replacement] p
        show ?thesis by (simp add: append_invalid [OF inv])
      qed
    qed
  qed
qed

theorem replace_invalid_invalid_replacement_witness:
  "find_invalid [0x48, 0x65, 0xFF, 0x6C] 0 4 = Some 2 \<and> (2::nat) \<noteq> 4
   \<and> validate_next2 [0x48, 0x65, 0xFF, 0x6C] 2 4 = Some (INVALID_LEAD, 2)
   \<and> INVALID_LEAD \<noteq> NOT_ENOUGH_ROOM
   \<and> ((0xD800 :: u32) > 0x10FFFF \<or> (0xD800 \<le> (0xD800 :: u32) \<and> (0xD800 :: u32) \<le> 0xDFFF))
   \<and> replace_invalid [0x48, 0x65, 0xFF, 0x6C] 0 4 [] 0xD800
       = Some (Thrown (invalid_code_point 0xD800) [0x48, 0x65])"
proof -
  have f: "find_invalid [0x48, 0x65, 0xFF, 0x6C] 0 4 = Some 2" by code_simp
  have v: "validate_next2 [0x48, 0x65, 0xFF, 0x6C] 2 4 = Some (INVALID_LEAD, 2)"
    by (simp add: validate_next2_def decoder_defs)
  from replace_invalid_invalid_replacement [OF f _ v, of "0xD800" "[]"] f v
  show ?thesis by simp
qed

section \<open>Encoding what the decoder read\<close>

text \<open>
  The converse of the previous section, for each sequence length: when the octets pass
  the tests of the decoder, the code point assembled from them lies below the bound of
  that length, and the branch of \<open>append\<close> for it writes the same octets again.
\<close>

lemma encode_decoded_1:
  assumes "\<not> bit (b0::u8) 7" and "cp = (ucast (mask8 b0) :: u32)"
  shows "cp < 0x80" and "ucast cp = b0"
proof -
  have "cp < 2 ^ 7"
  proof (rule word_less_2pI)
    fix n assume "bit cp n"
    then have "n < 8" "bit b0 n" unfolding assms(2) mask8_id
      by (auto simp: bit_simps dest: bit_imp_le_length)
    with assms(1) show "n < 7" by (cases "n = 7") auto
  qed simp
  then show "cp < 0x80" by simp
  show "ucast cp = b0" unfolding assms(2) mask8_id
    by (rule bit_word_eqI) (auto simp: bit_simps)
qed

lemma encode_decoded_2:
  assumes b0: "bit (b0::u8) 7 \<and> bit b0 6 \<and> \<not> bit b0 5" and b1: "is_trail b1"
    and cp: "(cp::u32) = (push_bit 6 (ucast (mask8 b0)) AND 0x7ff) + (ucast b1 AND 0x3f)"
  shows "cp < 0x800"
    and "ucast (drop_bit 6 cp OR 0xc0) = b0" and "ucast ((cp AND 0x3f) OR 0x80) = b1"
proof -
  have "cp < 2 ^ 11"
    by (rule word_less_2pI) (auto simp: cp bit_cp2)
  then show "cp < 0x800" by simp
  from b1 have t: "bit b1 7" "\<not> bit b1 6" by (simp_all add: is_trail_iff)
  show "ucast (drop_bit 6 cp OR 0xc0) = b0"
    by (rule bit_word_eqI)
       (use b0 in \<open>auto simp: lead_octet_bits bit_drop_bit_eq cp bit_cp2 less_8_cases\<close>)
  show "ucast ((cp AND 0x3f) OR 0x80) = b1"
    by (rule bit_word_eqI)
       (use t in \<open>auto simp: trail_octet_bits cp bit_cp2 less_8_cases\<close>)
qed

lemma encode_decoded_3:
  assumes b0: "bit (b0::u8) 7 \<and> bit b0 6 \<and> bit b0 5 \<and> \<not> bit b0 4"
    and b1: "is_trail b1" and b2: "is_trail b2"
    and cp: "(cp::u32) = (push_bit 12 (ucast (mask8 b0)) AND 0xffff)
         + (push_bit 6 (ucast (mask8 b1)) AND 0xfff) + (ucast b2 AND 0x3f)"
  shows "cp < 0x10000"
    and "ucast (drop_bit 12 cp OR 0xe0) = b0"
    and "ucast ((drop_bit 6 cp AND 0x3f) OR 0x80) = b1"
    and "ucast ((cp AND 0x3f) OR 0x80) = b2"
proof -
  have "cp < 2 ^ 16"
    by (rule word_less_2pI) (auto simp: cp bit_cp3)
  then show "cp < 0x10000" by simp
  from b1 b2 have t: "bit b1 7" "\<not> bit b1 6" "bit b2 7" "\<not> bit b2 6"
    by (simp_all add: is_trail_iff)
  show "ucast (drop_bit 12 cp OR 0xe0) = b0"
    by (rule bit_word_eqI)
       (use b0 in \<open>auto simp: lead_octet_bits bit_drop_bit_eq cp bit_cp3 less_8_cases\<close>)
  show "ucast ((drop_bit 6 cp AND 0x3f) OR 0x80) = b1"
    by (rule bit_word_eqI)
       (use t in \<open>auto simp: trail_octet_bits bit_drop_bit_eq cp bit_cp3 less_8_cases\<close>)
  show "ucast ((cp AND 0x3f) OR 0x80) = b2"
    by (rule bit_word_eqI)
       (use t in \<open>auto simp: trail_octet_bits cp bit_cp3 less_8_cases\<close>)
qed

lemma encode_decoded_4:
  assumes b0: "bit (b0::u8) 7 \<and> bit b0 6 \<and> bit b0 5 \<and> bit b0 4 \<and> \<not> bit b0 3"
    and b1: "is_trail b1" and b2: "is_trail b2" and b3: "is_trail b3"
    and cp: "(cp::u32) = (push_bit 18 (ucast (mask8 b0)) AND 0x1fffff)
         + (push_bit 12 (ucast (mask8 b1)) AND 0x3ffff)
         + (push_bit 6 (ucast (mask8 b2)) AND 0xfff) + (ucast b3 AND 0x3f)"
  shows "ucast (drop_bit 18 cp OR 0xf0) = b0"
    and "ucast ((drop_bit 12 cp AND 0x3f) OR 0x80) = b1"
    and "ucast ((drop_bit 6 cp AND 0x3f) OR 0x80) = b2"
    and "ucast ((cp AND 0x3f) OR 0x80) = b3"
proof -
  from b1 b2 b3 have t: "bit b1 7" "\<not> bit b1 6" "bit b2 7" "\<not> bit b2 6"
    "bit b3 7" "\<not> bit b3 6"
    by (simp_all add: is_trail_iff)
  show "ucast (drop_bit 18 cp OR 0xf0) = b0"
    by (rule bit_word_eqI)
       (use b0 in \<open>auto simp: lead_octet_bits bit_drop_bit_eq cp bit_cp4 less_8_cases\<close>)
  show "ucast ((drop_bit 12 cp AND 0x3f) OR 0x80) = b1"
    by (rule bit_word_eqI)
       (use t in \<open>auto simp: trail_octet_bits bit_drop_bit_eq cp bit_cp4 less_8_cases\<close>)
  show "ucast ((drop_bit 6 cp AND 0x3f) OR 0x80) = b2"
    by (rule bit_word_eqI)
       (use t in \<open>auto simp: trail_octet_bits bit_drop_bit_eq cp bit_cp4 less_8_cases\<close>)
  show "ucast ((cp AND 0x3f) OR 0x80) = b3"
    by (rule bit_word_eqI)
       (use t in \<open>auto simp: trail_octet_bits cp bit_cp4 less_8_cases\<close>)
qed


text \<open>The octets of a sequence, as a segment of the buffer.\<close>

lemma take_Suc_drop:
  "i < length xs \<Longrightarrow> take (Suc n) (drop i xs) = xs ! i # take n (drop (Suc i) xs)"
  by (simp flip: Cons_nth_drop_Suc)

lemma sequence_octets:
  "it < length mem \<Longrightarrow> it' = Suc it \<Longrightarrow> take (it' - it) (drop it mem) = [mem ! it]"
  "Suc it < length mem \<Longrightarrow> it' = Suc (Suc it) \<Longrightarrow>
     take (it' - it) (drop it mem) = [mem ! it, mem ! Suc it]"
  "Suc (Suc it) < length mem \<Longrightarrow> it' = Suc (Suc (Suc it)) \<Longrightarrow>
     take (it' - it) (drop it mem) = [mem ! it, mem ! Suc it, mem ! Suc (Suc it)]"
  "Suc (Suc (Suc it)) < length mem \<Longrightarrow> it' = Suc (Suc (Suc (Suc it))) \<Longrightarrow>
     take (it' - it) (drop it mem)
       = [mem ! it, mem ! Suc it, mem ! Suc (Suc it), mem ! Suc (Suc (Suc it))]"
proof -
  have d: "Suc it - it = Suc 0" "Suc (Suc it) - it = Suc (Suc 0)"
    "Suc (Suc (Suc it)) - it = Suc (Suc (Suc 0))"
    "Suc (Suc (Suc (Suc it))) - it = Suc (Suc (Suc (Suc 0)))"
    by simp_all
  show "it < length mem \<Longrightarrow> it' = Suc it \<Longrightarrow> take (it' - it) (drop it mem) = [mem ! it]"
    by (simp only: d take_Suc_drop) simp
  show "Suc it < length mem \<Longrightarrow> it' = Suc (Suc it) \<Longrightarrow>
     take (it' - it) (drop it mem) = [mem ! it, mem ! Suc it]"
    by (simp only: d) (simp add: take_Suc_drop)
  show "Suc (Suc it) < length mem \<Longrightarrow> it' = Suc (Suc (Suc it)) \<Longrightarrow>
     take (it' - it) (drop it mem) = [mem ! it, mem ! Suc it, mem ! Suc (Suc it)]"
    by (simp only: d) (simp add: take_Suc_drop)
  show "Suc (Suc (Suc it)) < length mem \<Longrightarrow> it' = Suc (Suc (Suc (Suc it))) \<Longrightarrow>
     take (it' - it) (drop it mem)
       = [mem ! it, mem ! Suc it, mem ! Suc (Suc it), mem ! Suc (Suc (Suc it))]"
    by (simp only: d) (simp add: take_Suc_drop)
qed

lemma sequence_length_eq_iff:
  "sequence_length mem it = Some (Suc 0) \<longleftrightarrow> it < length mem \<and> \<not> bit (mem ! it) 7"
  "sequence_length mem it = Some 2 \<longleftrightarrow>
     it < length mem \<and> bit (mem ! it) 7 \<and> bit (mem ! it) 6 \<and> \<not> bit (mem ! it) 5"
  "sequence_length mem it = Some 3 \<longleftrightarrow>
     it < length mem \<and> bit (mem ! it) 7 \<and> bit (mem ! it) 6 \<and> bit (mem ! it) 5
     \<and> \<not> bit (mem ! it) 4"
  "sequence_length mem it = Some 4 \<longleftrightarrow>
     it < length mem \<and> bit (mem ! it) 7 \<and> bit (mem ! it) 6 \<and> bit (mem ! it) 5
     \<and> bit (mem ! it) 4 \<and> \<not> bit (mem ! it) 3"
  by (auto simp: sequence_length_bits Let_def)

text \<open>
  After a successful \<open>validate_next\<close>, \<open>append\<close> of the decoded code point writes
  exactly the octets that were consumed.
\<close>

lemma append_decoded:
  assumes "validate_next mem it end c = Some (UTF8_OK, it', cp)"
  shows "append cp out = Returned (out @ take (it' - it) (drop it mem))"
proof -
  from assms obtain len it0 where len: "sequence_length mem it = Some len" "0 < len"
    and g: "get_sequence len mem it end 0 = Some (UTF8_OK, it0, cp)"
    and v: "is_code_point_valid cp" and o: "\<not> is_overlong_sequence cp len"
    and it': "it' = Suc it0"
    unfolding validate_next_OK_iff by blast
  from len(1) have "len \<le> 4" by (simp add: sequence_length_Some)
  with len(2) consider (1) "len = 1" | (2) "len = 2" | (3) "len = 3" | (4) "len = 4" by arith
  then show ?thesis
  proof cases
    case 1
    with len g have b: "\<not> bit (mem ! it) 7" and cp: "cp = ucast (mask8 (mem ! it))"
      and i: "it < length mem" "it0 = it"
      by (simp_all add: sequence_length_eq_iff get_sequence_def get_sequence_1_OK_iff)
    note e = encode_decoded_1 [OF b cp]
    from i it' have "take (it' - it) (drop it mem) = [mem ! it]"
      by (intro sequence_octets) simp_all
    with v e show ?thesis by (simp add: append_def)
  next
    case 2
    with len g have b: "bit (mem ! it) 7 \<and> bit (mem ! it) 6 \<and> \<not> bit (mem ! it) 5"
      and t: "is_trail (mem ! Suc it)"
      and cp: "cp = (push_bit 6 (ucast (mask8 (mem ! it))) AND 0x7ff)
                    + (ucast (mem ! Suc it) AND 0x3f)"
      and i: "Suc it < length mem" "it0 = Suc it"
      by (simp_all add: sequence_length_eq_iff get_sequence_def get_sequence_2_OK_iff)
    note e = encode_decoded_2 [OF b t cp]
    from o 2 have "\<not> cp < 0x80" by (auto simp: is_overlong_sequence_def split: if_splits)
    moreover from i it' have "take (it' - it) (drop it mem) = [mem ! it, mem ! Suc it]"
      by (intro sequence_octets) simp_all
    ultimately show ?thesis using v e by (simp add: append_def)
  next
    case 3
    with len g have b: "bit (mem ! it) 7 \<and> bit (mem ! it) 6 \<and> bit (mem ! it) 5
        \<and> \<not> bit (mem ! it) 4"
      and t: "is_trail (mem ! Suc it)" "is_trail (mem ! Suc (Suc it))"
      and cp: "cp = (push_bit 12 (ucast (mask8 (mem ! it))) AND 0xffff)
                    + (push_bit 6 (ucast (mask8 (mem ! Suc it))) AND 0xfff)
                    + (ucast (mem ! Suc (Suc it)) AND 0x3f)"
      and i: "Suc (Suc it) < length mem" "it0 = Suc (Suc it)"
      by (simp_all add: sequence_length_eq_iff get_sequence_def get_sequence_3_OK_iff)
    note e = encode_decoded_3 [OF b t cp]
    from o 3 have "\<not> cp < 0x80" "\<not> cp < 0x800"
      by (auto simp: is_overlong_sequence_def split: if_splits)
    moreover from i it'
    have "take (it' - it) (drop it mem) = [mem ! it, mem ! Suc it, mem ! Suc (Suc it)]"
      by (intro sequence_octets) simp_all
    ultimately show ?thesis using v e by (simp add: append_def)
  next
    case 4
    with len g have b: "bit (mem ! it) 7 \<and> bit (mem ! it) 6 \<and> bit (mem ! it) 5
        \<and> bit (mem ! it) 4 \<and> \<not> bit (mem ! it) 3"
      and t: "is_trail (mem ! Suc it)" "is_trail (mem ! Suc (Suc it))"
        "is_trail (mem ! Suc (Suc (Suc it)))"
      and cp: "cp = (push_bit 18 (ucast (mask8 (mem ! it))) AND 0x1fffff)
                    + (push_bit 12 (ucast (mask8 (mem ! Suc it))) AND 0x3ffff)
                    + (push_bit 6 (ucast (mask8 (mem ! Suc (Suc it)))) AND 0xfff)
                    + (ucast (mem ! Suc (Suc (Suc it))) AND 0x3f)"
      and i: "Suc (Suc (Suc it)) < length mem" "it0 = Suc (Suc (Suc it))"
      by (simp_all add: sequence_length_eq_iff get_sequence_def get_sequence_4_OK_iff)
    note e = encode_decoded_4 [OF b t cp]
    from o 4 have "\<not> cp < 0x80" "\<not> cp < 0x800" "\<not> cp < 0x10000"
      by (auto simp: is_overlong_sequence_def split: if_splits)
    moreover from i it'
    have "take (it' - it) (drop it mem)
        = [mem ! it, mem ! Suc it, mem ! Suc (Suc it), mem ! Suc (Suc (Suc it))]"
      by (intro sequence_octets) simp_all
    ultimately show ?thesis using v e by (simp add: append_def)
  qed
qed

section \<open>Surrogate pairs\<close>

lemma mask16_id: "mask16 u = u"
  unfolding mask16_def by (rule bit_word_eqI) (simp add: bit_simps bit_0xffff)

lemma ucast_16_32_id:
  assumes "(x::u32) < 0x10000"
  shows "(ucast (ucast x :: u16) :: u32) = x"
proof -
  from assms have "x < 2 ^ 16" by simp
  note hi = word_less_2p_bit [OF this]
  show ?thesis by (rule bit_word_eqI) (auto simp: bit_simps dest: hi)
qed

lemma surrogate_consts:
  "ucast LEAD_SURROGATE_MIN = (0xd800 :: u32)" "ucast LEAD_SURROGATE_MAX = (0xdbff :: u32)"
  "ucast TRAIL_SURROGATE_MIN = (0xdc00 :: u32)" "ucast TRAIL_SURROGATE_MAX = (0xdfff :: u32)"
  "ucast LEAD_OFFSET = (0xd7c0 :: u32)" "SURROGATE_OFFSET = 0xfca02400"
  by (simp_all add: LEAD_SURROGATE_MIN_def LEAD_SURROGATE_MAX_def TRAIL_SURROGATE_MIN_def
        TRAIL_SURROGATE_MAX_def LEAD_OFFSET_def SURROGATE_OFFSET_def)

text \<open>
  A valid code point up to 0xFFFF is one 16-bit unit that is no surrogate; a code point
  above 0xFFFF is split into a quotient and a remainder by 1024, which \<open>utf8to16\<close>
  turns into a lead and a trail surrogate and \<open>utf16to8\<close> puts together again.
\<close>

lemma bmp_unit:
  assumes "is_code_point_valid cp" "\<not> cp > 0xffff"
  shows "ucast (mask16 (ucast cp)) = cp" "\<not> is_lead_surrogate cp" "\<not> is_trail_surrogate cp"
proof -
  from assms(2) have "cp < 0x10000" by unat_arith
  then show "ucast (mask16 (ucast cp)) = cp" by (simp add: mask16_id ucast_16_32_id)
  from assms(1) have ns: "\<not> (0xd800 \<le> cp \<and> cp \<le> 0xdfff)"
    by (simp add: is_code_point_valid_def is_surrogate_def surrogate_consts)
  then show "\<not> is_lead_surrogate cp" unfolding is_lead_surrogate_def surrogate_consts
    by unat_arith
  from ns show "\<not> is_trail_surrogate cp" unfolding is_trail_surrogate_def surrogate_consts
    by unat_arith
qed

lemma split_fields:
  fixes cp :: u32
  assumes "0xffff < cp" "cp \<le> 0x10ffff"
  shows "0x40 \<le> drop_bit 10 cp" "drop_bit 10 cp \<le> 0x43f" "cp AND 0x3ff \<le> 0x3ff"
    and "push_bit 10 (drop_bit 10 cp) + (cp AND 0x3ff) = cp"
proof -
  from assms have n: "65535 < unat cp" "unat cp \<le> 1114111"
    by (simp_all add: word_less_nat_alt word_le_nat_alt)
  have q: "unat (drop_bit 10 cp) = unat cp div 1024"
    by (simp add: unat_drop_bit_eq drop_bit_eq_div unat_div)
  from n show "0x40 \<le> drop_bit 10 cp" "drop_bit 10 cp \<le> 0x43f"
    by (simp_all add: word_le_nat_alt q)
  have m: "cp AND 0x3ff = take_bit 10 cp"
    by (simp add: take_bit_eq_mask mask_eq_exp_minus_1)
  show "cp AND 0x3ff \<le> 0x3ff" by (rule word_and_le1)
  show "push_bit 10 (drop_bit 10 cp) + (cp AND 0x3ff) = cp"
    unfolding m by (rule bits_ident)
qed


lemma surrogate_bounds:
  fixes q r :: u32
  assumes q: "0x40 \<le> q" "q \<le> 0x43f" and r: "r \<le> 0x3ff"
  shows "q + 0xd7c0 < 0x10000" "0xd800 \<le> q + 0xd7c0" "q + 0xd7c0 \<le> 0xdbff"
    "r + 0xdc00 < 0x10000" "0xdc00 \<le> r + 0xdc00" "r + 0xdc00 \<le> 0xdfff"
proof -
  from q r have u: "64 \<le> unat q" "unat q \<le> 1087" "unat r \<le> 1023"
    by (simp_all add: word_le_nat_alt)
  have "unat q + unat (0xd7c0 :: u32) < 2 ^ LENGTH(32)" using u by simp
  then have uq: "unat (q + 0xd7c0) = unat q + 55232"
    by (simp add: unat_add_lem [THEN iffD1])
  have "unat r + unat (0xdc00 :: u32) < 2 ^ LENGTH(32)" using u by simp
  then have ur: "unat (r + 0xdc00) = unat r + 56320"
    by (simp add: unat_add_lem [THEN iffD1])
  from u show "q + 0xd7c0 < 0x10000" "0xd800 \<le> q + 0xd7c0" "q + 0xd7c0 \<le> 0xdbff"
    "r + 0xdc00 < 0x10000" "0xdc00 \<le> r + 0xdc00" "r + 0xdc00 \<le> 0xdfff"
    by (simp_all add: word_less_nat_alt word_le_nat_alt uq ur)
qed


lemma surrogate_sum:
  fixes q r :: u32
  shows "push_bit 10 (q + 0xd7c0) + (r + 0xdc00) + 0xfca02400 = push_bit 10 q + r"
proof -
  have "push_bit 10 (q + 0xd7c0) = push_bit 10 q + 0x35f0000"
    by (simp add: push_bit_eq_mult distrib_right)
  moreover have "push_bit 10 q + 0x35f0000 + (r + 0xdc00) + 0xfca02400
      = push_bit 10 q + r + (0x35f0000 + 0xdc00 + 0xfca02400)"
    by (simp only: ac_simps)
  moreover have "(0x35f0000 + 0xdc00 + 0xfca02400 :: u32) = 0" by simp
  ultimately show ?thesis by simp
qed


lemma surrogate_formula:
  fixes q r :: u32
  shows "push_bit 10 (q + 0xd7c0 - 0xD800) + (r + 0xdc00 - 0xDC00) + 0x10000 = push_bit 10 q + r"
proof -
  have "q + 0xd7c0 - 0xD800 = q - 0x40" by simp
  moreover have "push_bit 10 (q - 0x40) = push_bit 10 q - 0x10000"
    by (simp add: push_bit_eq_mult left_diff_distrib)
  ultimately show ?thesis by simp
qed



lemma surrogate_pair:
  fixes cp :: u32
  assumes "0xffff < cp" "cp \<le> 0x10ffff"
  defines "lead \<equiv> (ucast (drop_bit 10 cp + ucast LEAD_OFFSET) :: u16)"
    and "trail \<equiv> (ucast ((cp AND 0x3ff) + ucast TRAIL_SURROGATE_MIN) :: u16)"
  shows "is_lead_surrogate (ucast (mask16 lead))"
    and "is_trail_surrogate (ucast (mask16 trail))"
    and "push_bit 10 (ucast (mask16 lead)) + ucast (mask16 trail) + SURROGATE_OFFSET = cp"
    and "push_bit 10 (ucast lead - 0xD800) + (ucast trail - 0xDC00) + 0x10000 = cp"
proof -
  note f = split_fields [OF assms(1,2)]
  note b = surrogate_bounds [OF f(1,2,3)]
  have lead: "ucast lead = drop_bit 10 cp + 0xd7c0"
    unfolding lead_def surrogate_consts by (rule ucast_16_32_id [OF b(1)])
  have trail: "ucast trail = (cp AND 0x3ff) + 0xdc00"
    unfolding trail_def surrogate_consts by (rule ucast_16_32_id [OF b(4)])
  show "is_lead_surrogate (ucast (mask16 lead))"
    using b(2,3) by (simp add: mask16_id lead is_lead_surrogate_def surrogate_consts)
  show "is_trail_surrogate (ucast (mask16 trail))"
    using b(5,6) by (simp add: mask16_id trail is_trail_surrogate_def surrogate_consts)
  show "push_bit 10 (ucast (mask16 lead)) + ucast (mask16 trail) + SURROGATE_OFFSET = cp"
    unfolding mask16_id lead trail surrogate_consts surrogate_sum by (rule f(4))
  show "push_bit 10 (ucast lead - 0xD800) + (ucast trail - 0xDC00) + 0x10000 = cp"
    unfolding lead trail surrogate_formula by (rule f(4))
qed

section \<open>The round trip through UTF-16\<close>

text \<open>One iteration of each loop, for one code point.\<close>

lemma utf8to16_step:
  assumes "start \<noteq> end" "validate_next mem start end 0 = Some (UTF8_OK, start', cp)"
  shows "utf8to16 mem start end result = utf8to16 mem start' end (result @ utf16_units cp)"
proof -
  from assms(2) have "next mem start end = Some (start', Inr cp)"
    by (simp add: next_Inr_iff)
  with assms(1) show ?thesis
    by (subst utf8to16.simps) (simp add: utf16_units_def)
qed

lemma utf16to8_units:
  assumes v: "is_code_point_valid cp" and a: "append cp out = Returned out'"
  shows "utf16to8 (pre @ utf16_units cp @ post) (length pre)
           (length (pre @ utf16_units cp @ post)) out
       = utf16to8 (pre @ utf16_units cp @ post) (length pre + length (utf16_units cp))
           (length (pre @ utf16_units cp @ post)) out'"
proof (cases "cp > 0xffff")
  case False
  note u = bmp_unit [OF v False]
  from False have us: "utf16_units cp = [ucast cp]" by (simp add: utf16_units_def)
  show ?thesis unfolding us
    by (subst utf16to8.simps) (simp add: deref_def Let_def u a)
next
  case True
  from v have le: "cp \<le> 0x10ffff"
    by (simp add: is_code_point_valid_def CODE_POINT_MAX_def)
  note p = surrogate_pair [OF True le]
  from True have us: "utf16_units cp = [ucast (drop_bit 10 cp + ucast LEAD_OFFSET),
            ucast ((cp AND 0x3ff) + ucast TRAIL_SURROGATE_MIN)]"
    by (simp add: utf16_units_def)
  show ?thesis unfolding us
    by (subst utf16to8.simps) (simp add: deref_def Let_def nth_append p a)
qed

text \<open>
  Along a range that \<open>find_invalid\<close> walks through to the end bound,
  \<open>utf8to16\<close> appends 16-bit units from which \<open>utf16to8\<close> writes the octets of
  the range again, wherever the units are placed and whatever was written before.
\<close>

lemma round_trip_aux:
  assumes "find_invalid mem start end = Some end"
  shows "\<exists>us. (\<forall>r. utf8to16 mem start end r = Some (Returned (r @ us)))
      \<and> (\<forall>pre out. utf16to8 (pre @ us) (length pre) (length (pre @ us)) out
            = Some (Returned (out @ take (end - start) (drop start mem))))"
  using assms
proof (induction mem start "end" rule: find_invalid.induct)
  case (1 mem result "end")
  show ?case
  proof (cases "result = end")
    case True
    have "\<forall>r. utf8to16 mem result end r = Some (Returned (r @ []))"
      using True by (simp add: utf8to16.simps)
    moreover have "\<forall>pre out. utf16to8 (pre @ []) (length pre) (length (pre @ [])) out
            = Some (Returned (out @ take (end - result) (drop result mem)))"
      using True by (simp add: utf16to8.simps)
    ultimately show ?thesis by blast
  next
    case False
    with "1.prems" obtain e r' where v2: "validate_next2 mem result end = Some (e, r')"
      by (subst (asm) find_invalid.simps) (auto split: option.splits)
    have e: "e = UTF8_OK"
    proof (rule ccontr)
      assume ne: "e \<noteq> UTF8_OK"
      with False v2 "1.prems" have "r' = end"
        by (subst (asm) find_invalid.simps) simp
      moreover from v2 ne have "r' = result" by (auto dest: validate_next2_progress)
      ultimately show False using False by simp
    qed
    with False v2 "1.prems" have f: "find_invalid mem r' end = Some end"
      by (subst (asm) find_invalid.simps) simp
    from v2 e obtain cp where v: "validate_next mem result end 0 = Some (UTF8_OK, r', cp)"
      unfolding validate_next2_Some_iff by blast
    then have valid: "is_code_point_valid cp" unfolding validate_next_OK_iff by blast
    from v have le: "result \<le> r'" by (auto dest: validate_next_OK_it)
    from find_invalid_ge [OF f] have le': "r' \<le> end" .
    from "1.IH" [OF False v2 refl _ f] e obtain us where
      us1: "\<And>r. utf8to16 mem r' end r = Some (Returned (r @ us))"
      and us2: "\<And>pre out. utf16to8 (pre @ us) (length pre) (length (pre @ us)) out
            = Some (Returned (out @ take (end - r') (drop r' mem)))"
      by auto
    let ?us = "utf16_units cp @ us"
    have "\<forall>r. utf8to16 mem result end r = Some (Returned (r @ ?us))"
      using utf8to16_step [OF False v] us1 by simp
    moreover have "\<forall>pre out. utf16to8 (pre @ ?us) (length pre) (length (pre @ ?us)) out
            = Some (Returned (out @ take (end - result) (drop result mem)))"
    proof (intro allI)
      fix pre out
      let ?out' = "out @ take (r' - result) (drop result mem)"
      have "utf16to8 (pre @ ?us) (length pre) (length (pre @ ?us)) out
          = utf16to8 (pre @ ?us) (length pre + length (utf16_units cp))
              (length (pre @ ?us)) ?out'"
        by (rule utf16to8_units [OF valid append_decoded [OF v]])
      also have "\<dots> = Some (Returned (?out' @ take (end - r') (drop r' mem)))"
        using us2 [of "pre @ utf16_units cp" ?out'] by simp
      also have "?out' @ take (end - r') (drop r' mem)
          = out @ take (end - result) (drop result mem)"
        by (simp add: take_drop_chain [OF le le'])
      finally show "utf16to8 (pre @ ?us) (length pre) (length (pre @ ?us)) out
            = Some (Returned (out @ take (end - result) (drop result mem)))" .
    qed
    ultimately show ?thesis by blast
  qed
qed


lemma utf8to16_end: "utf8to16 mem e e result = Some (Returned result)"
  by (simp add: utf8to16.simps)

lemma utf16to8_end: "utf16to8 mem e e result = Some (Returned result)"
  by (simp add: utf16to8.simps)

lemma is_valid_iff: "is_valid mem start end = Some True \<longleftrightarrow> find_invalid mem start end = Some end"
  by (auto simp: is_valid_def)

text \<open>
  Claim C7. For every well-formed UTF-8 range (one that \<open>is_valid\<close> accepts),
  \<open>utf8to16\<close> returns, and \<open>utf16to8\<close> on the units it produced returns exactly
  the octets of the range. A code point above 0xFFFF (up to 0x10FFFF), encoded by
  \<open>append\<close>, comes out of \<open>utf8to16\<close> as two units, a lead surrogate and a trail
  surrogate, with \<open>((lead - 0xD800) << 10) + (trail - 0xDC00) + 0x10000\<close> equal to the
  code point, and \<open>utf16to8\<close> turns the pair into the same octets again.
\<close>

theorem utf8_utf16_round_trip:
  "(is_valid mem start end = Some True \<longrightarrow>
      (\<exists>units. utf8to16 mem start end [] = Some (Returned units)
         \<and> utf16to8 units 0 (length units) []
             = Some (Returned (take (end - start) (drop start mem)))))
   \<and> (0xFFFF < cp \<and> cp \<le> 0x10FFFF \<and> append cp [] = Returned bs \<longrightarrow>
      (\<exists>lead trail. utf8to16 bs 0 (length bs) [] = Some (Returned [lead, trail])
         \<and> is_lead_surrogate (ucast lead) \<and> is_trail_surrogate (ucast trail)
         \<and> push_bit 10 (ucast lead - 0xD800) + (ucast trail - 0xDC00) + 0x10000 = cp
         \<and> utf16to8 [lead, trail] 0 2 [] = Some (Returned bs)))"
proof (intro conjI impI)
  assume "is_valid mem start end = Some True"
  then have "find_invalid mem start end = Some end" by (simp add: is_valid_iff)
  from round_trip_aux [OF this] obtain us where
    1: "utf8to16 mem start end [] = Some (Returned ([] @ us))"
    and 2: "utf16to8 ([] @ us) (length ([] :: u16 list)) (length ([] @ us)) []
            = Some (Returned ([] @ take (end - start) (drop start mem)))"
    by blast
  then show "\<exists>units. utf8to16 mem start end [] = Some (Returned units)
         \<and> utf16to8 units 0 (length units) []
             = Some (Returned (take (end - start) (drop start mem)))"
    by auto
next
  assume h: "0xFFFF < cp \<and> cp \<le> 0x10FFFF \<and> append cp [] = Returned bs"
  then have hi: "0xffff < cp" and le: "cp \<le> 0x10ffff" and a: "append cp [] = Returned bs"
    by simp_all
  from hi have "\<not> (0xD800 \<le> cp \<and> cp \<le> 0xDFFF)" by unat_arith
  with le have v: "is_code_point_valid cp"
    by (simp add: is_code_point_valid_def is_surrogate_def CODE_POINT_MAX_def
          LEAD_SURROGATE_MIN_def TRAIL_SURROGATE_MAX_def)
  from validate_next_appended [OF v, of "[]" 0] a hi
  have d: "validate_next bs 0 (length bs) 0 = Some (UTF8_OK, length bs, cp)"
    and n: "length bs \<noteq> 0"
    by (auto split: if_splits)
  define lead :: u16 where "lead = ucast (drop_bit 10 cp + ucast LEAD_OFFSET)"
  define trail :: u16 where "trail = ucast ((cp AND 0x3ff) + ucast TRAIL_SURROGATE_MIN)"
  from hi have us: "utf16_units cp = [lead, trail]"
    by (simp add: utf16_units_def lead_def trail_def)
  note p = surrogate_pair [OF hi le, folded lead_def trail_def]
  have 1: "utf8to16 bs 0 (length bs) [] = Some (Returned [lead, trail])"
    using utf8to16_step [OF n [symmetric] d, of "[]"] us by (simp add: utf8to16_end)
  have 2: "utf16to8 [lead, trail] 0 2 [] = Some (Returned bs)"
    using utf16to8_units [OF v a, of "[]" "[]"] us
    by (simp add: utf16to8_end numeral_2_eq_2)
  from 1 2 p show "\<exists>lead trail. utf8to16 bs 0 (length bs) [] = Some (Returned [lead, trail])
         \<and> is_lead_surrogate (ucast lead) \<and> is_trail_surrogate (ucast trail)
         \<and> push_bit 10 (ucast lead - 0xD800) + (ucast trail - 0xDC00) + 0x10000 = cp
         \<and> utf16to8 [lead, trail] 0 2 [] = Some (Returned bs)"
    by (auto simp: mask16_id)
qed

theorem utf8_utf16_round_trip_witness:
  "is_valid [0x41, 0xF0, 0x9F, 0x98, 0x80, 0xE2, 0x82, 0xAC] 0 8 = Some True
   \<and> utf8to16 [0x41, 0xF0, 0x9F, 0x98, 0x80, 0xE2, 0x82, 0xAC] 0 8 []
       = Some (Returned [0x41, 0xD83D, 0xDE00, 0x20AC])
   \<and> utf16to8 [0x41, 0xD83D, 0xDE00, 0x20AC] 0 4 []
       = Some (Returned [0x41, 0xF0, 0x9F, 0x98, 0x80, 0xE2, 0x82, 0xAC])
   \<and> (0xFFFF :: u32) < 0x1F600 \<and> (0x1F600 :: u32) \<le> 0x10FFFF
   \<and> append 0x1F600 [] = Returned [0xF0, 0x9F, 0x98, 0x80]
   \<and> utf8to16 [0xF0, 0x9F, 0x98, 0x80] 0 4 [] = Some (Returned [0xD83D, 0xDE00])
   \<and> push_bit 10 (ucast (0xD83D :: u16) - 0xD800) + (ucast (0xDE00 :: u16) - 0xDC00) + 0x10000
       = (0x1F600 :: u32)"
proof -
  let ?m = "[0x41, 0xF0, 0x9F, 0x98, 0x80, 0xE2, 0x82, 0xAC] :: u8 list"
  have v: "is_valid ?m 0 8 = Some True" by code_simp
  have u: "utf8to16 ?m 0 8 [] = Some (Returned [0x41, 0xD83D, 0xDE00, 0x20AC])" by code_simp
  have a: "append 0x1F600 [] = Returned [0xF0, 0x9F, 0x98, 0x80]" by code_simp
  have u': "utf8to16 [0xF0, 0x9F, 0x98, 0x80] 0 4 [] = Some (Returned [0xD83D, 0xDE00])"
    by code_simp
  have c: "(0xFFFF :: u32) < 0x1F600" "(0x1F600 :: u32) \<le> 0x10FFFF" by simp_all
  have e: "Suc (Suc (Suc (Suc 0))) = 4" by simp
  from utf8_utf16_round_trip [of ?m 0 8 "0x1F600" "[0xF0, 0x9F, 0x98, 0x80]"] v u a u' c
  show ?thesis by (auto simp: e)
qed

end
